theory Spec2Isabelle
  imports Main
begin

section \<open>Go strings, runes and the library functions the key parser calls\<close>

text \<open>
  A Go string is a sequence of bytes, here a \<open>string\<close> (a list of 8-bit characters).
  \<open>len(s)\<close> is \<open>length s\<close> and \<open>s[i]\<close> is \<open>s ! i\<close>. A rune is a Unicode code
  point; every rune below is decoded from a string or produced by the upper-case
  mapping, so it is never negative and is modelled as a natural number.
\<close>

type_synonym rune = nat

definition byte :: "char \<Rightarrow> nat" where
  "byte c = of_char c"

definition RuneError :: rune where
  "RuneError = 0xFFFD"

definition RuneSelf :: nat where
  "RuneSelf = 0x80"

text \<open>
  \<open>utf8.DecodeRuneInString\<close>: the first rune of the string and its width in bytes.
  An empty string gives \<open>(RuneError, 0)\<close>, an ill-formed sequence \<open>(RuneError, 1)\<close>.
  The masks and shifts of the library are written as \<open>mod\<close> and multiplication.
\<close>

definition DecodeRuneInString :: "string \<Rightarrow> rune \<times> nat" where
  "DecodeRuneInString s =
    (case s of
       [] \<Rightarrow> (RuneError, 0)
     | c0 # cs \<Rightarrow>
        (let s0 = byte c0 in
         if s0 < RuneSelf then (s0, 1)
         else if s0 < 0xC2 \<or> 0xF4 < s0 then (RuneError, 1)
         else
           (let sz = (if s0 < 0xE0 then 2 else if s0 < 0xF0 then 3 else 4 :: nat);
                lo = (if s0 = 0xE0 then 0xA0 else if s0 = 0xF0 then 0x90 else 0x80 :: nat);
                hi = (if s0 = 0xED then 0x9F else if s0 = 0xF4 then 0x8F else 0xBF :: nat)
            in if Suc (length cs) < sz then (RuneError, 1)
               else
                 (let s1 = byte (cs ! 0) in
                  if s1 < lo \<or> hi < s1 then (RuneError, 1)
                  else if sz \<le> 2 then ((s0 mod 32) * 64 + s1 mod 64, 2)
                  else
                    (let s2 = byte (cs ! 1) in
                     if s2 < 0x80 \<or> 0xBF < s2 then (RuneError, 1)
                     else if sz \<le> 3
                       then ((s0 mod 16) * 4096 + (s1 mod 64) * 64 + s2 mod 64, 3)
                     else
                       (let s3 = byte (cs ! 2) in
                        if s3 < 0x80 \<or> 0xBF < s3 then (RuneError, 1)
                        else ((s0 mod 8) * 262144 + (s1 mod 64) * 4096
                                + (s2 mod 64) * 64 + s3 mod 64, 4)))))))"

lemma DecodeRuneInString_width_pos: "s \<noteq> [] \<Longrightarrow> 1 \<le> snd (DecodeRuneInString s)"
  by (cases s) (simp_all add: DecodeRuneInString_def Let_def)

text \<open>The conversion \<open>[]rune(s)\<close>, which is also the sequence a \<open>range\<close> loop visits.\<close>

function runes :: "string \<Rightarrow> rune list" where
  "runes s =
    (if s = [] then []
     else (case DecodeRuneInString s of (r, w) \<Rightarrow> r # runes (drop w s)))"
  by pat_completeness auto
termination
proof (relation "measure length")
  show "wf (measure length)" by simp
next
  fix s :: string and r :: rune and w :: nat
  assume "s \<noteq> []" and "(r, w) = DecodeRuneInString s"
  then have "1 \<le> w"
    using DecodeRuneInString_width_pos [of s] by (metis snd_conv)
  with \<open>s \<noteq> []\<close> show "(drop w s, s) \<in> measure length" by simp
qed

declare runes.simps [simp del]

text \<open>
  \<open>utf8.AppendRune\<close>, which \<open>strings.Builder.WriteRune\<close> calls: the UTF-8 encoding
  of a rune; a surrogate or a value beyond U+10FFFF is written as U+FFFD.
\<close>

definition EncodeRune :: "rune \<Rightarrow> string" where
  "EncodeRune r =
    (if r \<le> 0x7F then [char_of r]
     else if r \<le> 0x7FF then [char_of (0xC0 + r div 64), char_of (0x80 + r mod 64)]
     else
       (let q = (if 0x10FFFF < r \<or> (0xD800 \<le> r \<and> r \<le> 0xDFFF) then RuneError else r) in
        if q \<le> 0xFFFF
        then [char_of (0xE0 + q div 4096), char_of (0x80 + (q div 64) mod 64),
              char_of (0x80 + q mod 64)]
        else [char_of (0xF0 + q div 262144), char_of (0x80 + (q div 4096) mod 64),
              char_of (0x80 + (q div 64) mod 64), char_of (0x80 + q mod 64)]))"

text \<open>\<open>unicode.IsSpace\<close>: the Latin-1 switch, then the White_Space table.\<close>

definition IsSpace :: "rune \<Rightarrow> bool" where
  "IsSpace r =
    (if r \<le> 0xFF then r \<in> set [0x09, 0x0A, 0x0B, 0x0C, 0x0D, 0x20, 0x85, 0xA0]
     else r = 0x1680 \<or> (0x2000 \<le> r \<and> r \<le> 0x200A) \<or> r = 0x2028 \<or> r = 0x2029
          \<or> r = 0x202F \<or> r = 0x205F \<or> r = 0x3000)"

text \<open>The table \<open>asciiSpace\<close> of package \<open>strings\<close>.\<close>

definition asciiSpace :: "char \<Rightarrow> bool" where
  "asciiSpace c = (byte c \<in> set [0x09, 0x0A, 0x0B, 0x0C, 0x0D, 0x20])"

text \<open>
  \<open>indexFunc\<close>: the byte index of the first rune \<open>r\<close> with \<open>f r = truth\<close>;
  \<open>None\<close> stands for the library's \<open>-1\<close>.
\<close>

function indexFunc :: "string \<Rightarrow> (rune \<Rightarrow> bool) \<Rightarrow> bool \<Rightarrow> nat option" where
  "indexFunc s f truth =
    (if s = [] then None
     else (case DecodeRuneInString s of (r, w) \<Rightarrow>
             if f r = truth then Some 0
             else (case indexFunc (drop w s) f truth of
                     None \<Rightarrow> None
                   | Some i \<Rightarrow> Some (w + i))))"
  by pat_completeness auto
termination
proof (relation "measure (\<lambda>(s, f, truth). length s)")
  show "wf (measure (\<lambda>(s, f, truth). length s))" by simp
next
  fix s :: string and f :: "rune \<Rightarrow> bool" and truth :: bool
    and r :: rune and w :: nat
  assume "s \<noteq> []" and "(r, w) = DecodeRuneInString s"
  then have "1 \<le> w"
    using DecodeRuneInString_width_pos [of s] by (metis snd_conv)
  with \<open>s \<noteq> []\<close>
  show "((drop w s, f, truth), (s, f, truth)) \<in> measure (\<lambda>(s, f, truth). length s)"
    by simp
qed

declare indexFunc.simps [simp del]

text \<open>\<open>utf8.RuneStart\<close>: the byte is not a continuation byte.\<close>

definition RuneStart :: "char \<Rightarrow> bool" where
  "RuneStart b = (byte b div 64 \<noteq> 2)"

text \<open>
  The backwards scan of \<open>utf8.DecodeLastRuneInString\<close>:
  \<^verbatim>\<open>for start--; start >= lim; start-- { if RuneStart(s[start]) { break } }\<close>
  entered with \<open>start\<close> already decremented; \<open>lim\<close> is never negative.
\<close>

function scanBack :: "string \<Rightarrow> int \<Rightarrow> int \<Rightarrow> int" where
  "scanBack s lim start =
    (if lim \<le> start
     then (if RuneStart (s ! nat start) then start else scanBack s lim (start - 1))
     else start)"
  by pat_completeness auto
termination
  by (relation "measure (\<lambda>(s, lim, start). nat (start - lim + 1))") auto

declare scanBack.simps [simp del]

lemma scanBack_le: "scanBack s lim start \<le> start"
proof (induction s lim start rule: scanBack.induct)
  case (1 s lim start)
  show ?case
  proof (cases "lim \<le> start \<and> \<not> RuneStart (s ! nat start)")
    case True
    then have "scanBack s lim start = scanBack s lim (start - 1)"
      by (subst scanBack.simps) simp
    with 1 True show ?thesis by simp
  next
    case False
    then have "scanBack s lim start = start"
      by (subst scanBack.simps) auto
    then show ?thesis by simp
  qed
qed

definition DecodeLastRuneInString :: "string \<Rightarrow> rune \<times> nat" where
  "DecodeLastRuneInString s =
    (let n = int (length s) in
     if n = 0 then (RuneError, 0)
     else
       (let start = n - 1; r = byte (s ! nat start) in
        if r < RuneSelf then (r, 1)
        else
          (let lim = max 0 (n - 4);
               start1 = scanBack s lim (start - 1);
               start2 = (if start1 < 0 then 0 else start1)
           in (case DecodeRuneInString (drop (nat start2) s) of (r, wid) \<Rightarrow>
                 if start2 + int wid \<noteq> n then (RuneError, 1) else (r, wid)))))"

lemma DecodeLastRuneInString_width_pos:
  assumes "s \<noteq> []"
  shows "1 \<le> snd (DecodeLastRuneInString s)"
proof -
  let ?n = "int (length s)"
  let ?start1 = "scanBack s (max 0 (?n - 4)) (?n - 1 - 1)"
  let ?start2 = "if ?start1 < 0 then 0 else ?start1"
  have "?start1 \<le> ?n - 2" using scanBack_le [of s "max 0 (?n - 4)" "?n - 1 - 1"] by simp
  moreover have "1 \<le> ?n" using assms by (cases s) simp_all
  ultimately have lt: "?start2 < ?n" by auto
  show ?thesis
    using assms lt
    by (auto simp: DecodeLastRuneInString_def Let_def Suc_le_eq split: prod.splits)
qed

text \<open>
  \<open>lastIndexFunc\<close>: the byte index of the last rune \<open>r\<close> with \<open>f r = truth\<close>,
  decoding backwards. The loop variable \<open>i\<close> of the library is the length of the
  prefix still to be searched, so the recursion is on that prefix \<open>s[0:i]\<close>.
\<close>

function lastIndexFunc :: "string \<Rightarrow> (rune \<Rightarrow> bool) \<Rightarrow> bool \<Rightarrow> nat option" where
  "lastIndexFunc s f truth =
    (if s = [] then None
     else (case DecodeLastRuneInString s of (r, wid) \<Rightarrow>
             (let i = length s - wid in
              if f r = truth then Some i else lastIndexFunc (take i s) f truth)))"
  by pat_completeness auto
termination
proof (relation "measure (\<lambda>(s, f, truth). length s)")
  show "wf (measure (\<lambda>(s, f, truth). length s))" by simp
next
  fix s :: string and f :: "rune \<Rightarrow> bool" and truth :: bool
    and r :: rune and wid :: nat and i :: nat
  assume "s \<noteq> []" and "(r, wid) = DecodeLastRuneInString s" and "i = length s - wid"
  then have "1 \<le> wid"
    using DecodeLastRuneInString_width_pos [of s] by (metis snd_conv)
  with \<open>s \<noteq> []\<close> \<open>i = length s - wid\<close>
  show "((take i s, f, truth), (s, f, truth)) \<in> measure (\<lambda>(s, f, truth). length s)"
    by simp
qed

declare lastIndexFunc.simps [simp del]

definition TrimLeftFunc :: "string \<Rightarrow> (rune \<Rightarrow> bool) \<Rightarrow> string" where
  "TrimLeftFunc s f =
    (case indexFunc s f False of None \<Rightarrow> [] | Some i \<Rightarrow> drop i s)"

definition TrimRightFunc :: "string \<Rightarrow> (rune \<Rightarrow> bool) \<Rightarrow> string" where
  "TrimRightFunc s f =
    (case lastIndexFunc s f False of
       None \<Rightarrow> take 0 s
     | Some i \<Rightarrow>
        if RuneSelf \<le> byte (s ! i)
        then take (i + snd (DecodeRuneInString (drop i s))) s
        else take (i + 1) s)"

definition TrimFunc :: "string \<Rightarrow> (rune \<Rightarrow> bool) \<Rightarrow> string" where
  "TrimFunc s f = TrimRightFunc (TrimLeftFunc s f) f"

text \<open>
  \<open>strings.TrimSpace\<close>. The first loop skips leading ASCII white space and hands the
  rest to \<open>TrimFunc\<close> at the first non-ASCII byte; \<open>trimStop\<close> is the second loop,
  which walks back from the end of \<open>s[start:]\<close> and hands over to \<open>TrimRightFunc\<close>
  at the first non-ASCII byte.
\<close>

function trimStop :: "string \<Rightarrow> string" where
  "trimStop s =
    (if s = [] then []
     else (let c = last s in
           if RuneSelf \<le> byte c then TrimRightFunc s IsSpace
           else if asciiSpace c then trimStop (butlast s)
           else s))"
  by pat_completeness auto
termination
  by (relation "measure length") auto

declare trimStop.simps [simp del]

fun TrimSpace :: "string \<Rightarrow> string" where
  "TrimSpace [] = []"
| "TrimSpace (c # cs) =
    (if RuneSelf \<le> byte c then TrimFunc (c # cs) IsSpace
     else if asciiSpace c then TrimSpace cs
     else trimStop (c # cs))"

text \<open>
  \<open>unicode.ToUpper\<close>: the ASCII range is computed, the rest is looked up in the
  Unicode case tables, which this program does not contain. The lookup
  \<open>unicode.To(UpperCase, r)\<close> is the parameter \<open>tbl\<close> of everything below, and the
  theorems hold for every such table.
\<close>

definition unicode_ToUpper :: "(rune \<Rightarrow> rune) \<Rightarrow> rune \<Rightarrow> rune" where
  "unicode_ToUpper tbl r =
    (if r \<le> 0x7F then (if 0x61 \<le> r \<and> r \<le> 0x7A then r - 0x20 else r)
     else tbl r)"

text \<open>
  \<open>strings.Map\<close>: every rune of the string (an ill-formed byte counts as U+FFFD) is
  replaced by its image, written in UTF-8. The library drops a rune whose image is
  negative; an upper-case mapping has no such image. Its fast path returns the
  string itself when no rune changes and no byte is ill-formed, which is the same
  sequence of bytes.
\<close>

definition Map :: "(rune \<Rightarrow> rune) \<Rightarrow> string \<Rightarrow> string" where
  "Map mapping s = concat (map (\<lambda>c. EncodeRune (mapping c)) (runes s))"

definition upperByte :: "char \<Rightarrow> char" where
  "upperByte c = (if 0x61 \<le> byte c \<and> byte c \<le> 0x7A then char_of (byte c - 0x20) else c)"

text \<open>
  \<open>strings.ToUpper\<close>: a string of ASCII bytes is mapped byte by byte, any other
  string goes through \<open>Map\<close> with \<open>unicode.ToUpper\<close>.
\<close>

definition ToUpper :: "(rune \<Rightarrow> rune) \<Rightarrow> string \<Rightarrow> string" where
  "ToUpper tbl s =
    (if list_all (\<lambda>c. byte c < RuneSelf) s then map upperByte s
     else Map (unicode_ToUpper tbl) s)"

section \<open>Key tasks and key resolution\<close>

text \<open>
  \<open>KeyTask\<close> is the struct of both platform files. \<open>KeyCode\<close> is a \<open>C.CGKeyCode\<close>
  on macOS and an \<open>int\<close> on Windows, \<open>Interval\<close> a \<open>time.Duration\<close> in
  nanoseconds. \<open>zeroTask\<close> is the literal \<open>KeyTask{}\<close>.
\<close>

record KeyTask =
  KeyCode :: int
  UnicodeRune :: rune
  UseUnicode :: bool
  Interval :: int

definition zeroTask :: KeyTask where
  "zeroTask = \<lparr>KeyCode = 0, UnicodeRune = 0, UseUnicode = False, Interval = 0\<rparr>"

text \<open>
  An \<open>error\<close> made by \<open>fmt.Errorf\<close> is modelled by its message; a function that
  returns \<open>(KeyTask, error)\<close> returns \<open>Inl\<close> of the message or \<open>Inr\<close> of the task.
\<close>

type_synonym error = string

subsection \<open>macOS: \<open>main_darwin.go\<close>\<close>

text \<open>A \<open>switch\<close> over constants is a lookup in the list of its cases.\<close>

definition macLetterCases :: "(char \<times> int) list" where
  "macLetterCases =
    [(CHR ''A'', 0), (CHR ''B'', 11), (CHR ''C'', 8), (CHR ''D'', 2),
     (CHR ''E'', 14), (CHR ''F'', 3), (CHR ''G'', 5), (CHR ''H'', 4),
     (CHR ''I'', 34), (CHR ''J'', 38), (CHR ''K'', 40), (CHR ''L'', 37),
     (CHR ''M'', 46), (CHR ''N'', 45), (CHR ''O'', 31), (CHR ''P'', 35),
     (CHR ''Q'', 12), (CHR ''R'', 15), (CHR ''S'', 1), (CHR ''T'', 17),
     (CHR ''U'', 32), (CHR ''V'', 9), (CHR ''W'', 13), (CHR ''X'', 7),
     (CHR ''Y'', 16), (CHR ''Z'', 6)]"

definition macLetterKeyCode :: "char \<Rightarrow> int \<times> bool" where
  "macLetterKeyCode ch =
    (case map_of macLetterCases ch of
       Some code \<Rightarrow> (code, True)
     | None \<Rightarrow> (0, False))"

definition macDigitCases :: "(char \<times> int) list" where
  "macDigitCases =
    [(CHR ''0'', 29), (CHR ''1'', 18), (CHR ''2'', 19), (CHR ''3'', 20),
     (CHR ''4'', 21), (CHR ''5'', 23), (CHR ''6'', 22), (CHR ''7'', 26),
     (CHR ''8'', 28), (CHR ''9'', 25)]"

definition macDigitKeyCode :: "char \<Rightarrow> int \<times> bool" where
  "macDigitKeyCode ch =
    (case map_of macDigitCases ch of
       Some code \<Rightarrow> (code, True)
     | None \<Rightarrow> (0, False))"

definition macFunctionCases :: "(string \<times> int) list" where
  "macFunctionCases =
    [(''F1'', 122), (''F2'', 120), (''F3'', 99), (''F4'', 118), (''F5'', 96),
     (''F6'', 97), (''F7'', 98), (''F8'', 100), (''F9'', 101), (''F10'', 109),
     (''F11'', 103), (''F12'', 111)]"

definition macFunctionKeyCode :: "string \<Rightarrow> error + int" where
  "macFunctionKeyCode key =
    (case map_of macFunctionCases key of
       Some code \<Rightarrow> Inr code
     | None \<Rightarrow> Inl (''unsupported key: '' @ key))"

definition macFunctionKeys :: "string list" where
  "macFunctionKeys =
    [''F1'', ''F2'', ''F3'', ''F4'', ''F5'', ''F6'', ''F7'', ''F8'', ''F9'', ''F10'',
     ''F11'', ''F12'']"

definition parseMacInput :: "(rune \<Rightarrow> rune) \<Rightarrow> string \<Rightarrow> error + KeyTask" where
  "parseMacInput tbl input =
    (let key = ToUpper tbl (TrimSpace input) in
     if key = [] then Inl ''empty key''
     else
       (let rs = runes (TrimSpace input) in
        if length rs = 1
        then Inr (zeroTask\<lparr>UnicodeRune := rs ! 0, UseUnicode := True\<rparr>)
        else if length key = 1 \<and> snd (macLetterKeyCode (key ! 0))
        then Inr (zeroTask\<lparr>KeyCode := fst (macLetterKeyCode (key ! 0))\<rparr>)
        else if length key = 1 \<and> snd (macDigitKeyCode (key ! 0))
        then Inr (zeroTask\<lparr>KeyCode := fst (macDigitKeyCode (key ! 0))\<rparr>)
        else if key = ''SPACE'' then Inr (zeroTask\<lparr>KeyCode := 49\<rparr>)
        else if key = ''ENTER'' then Inr (zeroTask\<lparr>KeyCode := 36\<rparr>)
        else if key = ''ESC'' \<or> key = ''ESCAPE'' then Inr (zeroTask\<lparr>KeyCode := 53\<rparr>)
        else if key = ''TAB'' then Inr (zeroTask\<lparr>KeyCode := 48\<rparr>)
        else if key = ''UP'' then Inr (zeroTask\<lparr>KeyCode := 126\<rparr>)
        else if key = ''DOWN'' then Inr (zeroTask\<lparr>KeyCode := 125\<rparr>)
        else if key = ''LEFT'' then Inr (zeroTask\<lparr>KeyCode := 123\<rparr>)
        else if key = ''RIGHT'' then Inr (zeroTask\<lparr>KeyCode := 124\<rparr>)
        else if key \<in> set macFunctionKeys
        then (case macFunctionKeyCode key of
                Inl err \<Rightarrow> Inl err
              | Inr code \<Rightarrow> Inr (zeroTask\<lparr>KeyCode := code\<rparr>))
        else Inl (''unsupported key: '' @ input)))"

subsection \<open>Windows: the second platform file\<close>

text \<open>
  The Windows key codes are the constants \<open>keybd_event.VK_...\<close> of an imported
  package, whose values this program does not contain. They are the parameter
  \<open>vk\<close>, from the name of a constant to its value.
\<close>

definition winLetterDigitCases :: "(char \<times> string) list" where
  "winLetterDigitCases =
    [(CHR ''A'', ''VK_A''), (CHR ''B'', ''VK_B''), (CHR ''C'', ''VK_C''),
     (CHR ''D'', ''VK_D''), (CHR ''E'', ''VK_E''), (CHR ''F'', ''VK_F''),
     (CHR ''G'', ''VK_G''), (CHR ''H'', ''VK_H''), (CHR ''I'', ''VK_I''),
     (CHR ''J'', ''VK_J''), (CHR ''K'', ''VK_K''), (CHR ''L'', ''VK_L''),
     (CHR ''M'', ''VK_M''), (CHR ''N'', ''VK_N''), (CHR ''O'', ''VK_O''),
     (CHR ''P'', ''VK_P''), (CHR ''Q'', ''VK_Q''), (CHR ''R'', ''VK_R''),
     (CHR ''S'', ''VK_S''), (CHR ''T'', ''VK_T''), (CHR ''U'', ''VK_U''),
     (CHR ''V'', ''VK_V''), (CHR ''W'', ''VK_W''), (CHR ''X'', ''VK_X''),
     (CHR ''Y'', ''VK_Y''), (CHR ''Z'', ''VK_Z''), (CHR ''0'', ''VK_0''),
     (CHR ''1'', ''VK_1''), (CHR ''2'', ''VK_2''), (CHR ''3'', ''VK_3''),
     (CHR ''4'', ''VK_4''), (CHR ''5'', ''VK_5''), (CHR ''6'', ''VK_6''),
     (CHR ''7'', ''VK_7''), (CHR ''8'', ''VK_8''), (CHR ''9'', ''VK_9'')]"

definition winNamedCases :: "(string \<times> string) list" where
  "winNamedCases =
    [(''SPACE'', ''VK_SPACE''), (''ENTER'', ''VK_ENTER''), (''ESC'', ''VK_ESC''),
     (''ESCAPE'', ''VK_ESC''), (''TAB'', ''VK_TAB''), (''UP'', ''VK_UP''),
     (''DOWN'', ''VK_DOWN''), (''LEFT'', ''VK_LEFT''), (''RIGHT'', ''VK_RIGHT''),
     (''F1'', ''VK_F1''), (''F2'', ''VK_F2''), (''F3'', ''VK_F3''),
     (''F4'', ''VK_F4''), (''F5'', ''VK_F5''), (''F6'', ''VK_F6''),
     (''F7'', ''VK_F7''), (''F8'', ''VK_F8''), (''F9'', ''VK_F9''),
     (''F10'', ''VK_F10''), (''F11'', ''VK_F11''), (''F12'', ''VK_F12'')]"

definition parseKeyInput ::
  "(string \<Rightarrow> int) \<Rightarrow> (rune \<Rightarrow> rune) \<Rightarrow> string \<Rightarrow> error + KeyTask" where
  "parseKeyInput vk tbl input =
    (let key = ToUpper tbl (TrimSpace input) in
     if key = [] then Inl ''empty key''
     else
       (let rs = runes (TrimSpace input) in
        if length rs = 1
        then Inr (zeroTask\<lparr>UnicodeRune := rs ! 0, UseUnicode := True\<rparr>)
        else
          (case (if length key = 1 then map_of winLetterDigitCases (key ! 0) else None) of
             Some c \<Rightarrow> Inr (zeroTask\<lparr>KeyCode := vk c\<rparr>)
           | None \<Rightarrow>
              (case map_of winNamedCases key of
                 Some c \<Rightarrow> Inr (zeroTask\<lparr>KeyCode := vk c\<rparr>)
               | None \<Rightarrow> Inl (''unsupported key: '' @ input)))))"

subsection \<open>The named keys\<close>

text \<open>
  The cases of the two \<open>switch key\<close> statements side by side: the key name, the
  macOS key code (for F1 to F12 the code \<open>macFunctionKeyCode\<close> returns) and the
  name of the Windows constant.
\<close>

definition namedKeyTable :: "(string \<times> int \<times> string) list" where
  "namedKeyTable =
    [(''SPACE'', 49, ''VK_SPACE''), (''ENTER'', 36, ''VK_ENTER''), (''ESC'', 53, ''VK_ESC''),
     (''ESCAPE'', 53, ''VK_ESC''), (''TAB'', 48, ''VK_TAB''), (''UP'', 126, ''VK_UP''),
     (''DOWN'', 125, ''VK_DOWN''), (''LEFT'', 123, ''VK_LEFT''), (''RIGHT'', 124, ''VK_RIGHT''),
     (''F1'', 122, ''VK_F1''), (''F2'', 120, ''VK_F2''), (''F3'', 99, ''VK_F3''),
     (''F4'', 118, ''VK_F4''), (''F5'', 96, ''VK_F5''), (''F6'', 97, ''VK_F6''),
     (''F7'', 98, ''VK_F7''), (''F8'', 100, ''VK_F8''), (''F9'', 101, ''VK_F9''),
     (''F10'', 109, ''VK_F10''), (''F11'', 103, ''VK_F11''), (''F12'', 111, ''VK_F12'')]"

definition keyNames :: "string list" where
  "keyNames = map fst namedKeyTable"

section \<open>The runner\<close>

text \<open>
  \<open>Runner\<close> and its goroutines are modelled as a transition system. A state holds
  the fields of the struct (\<open>running\<close>, \<open>stopCh\<close>, the counter of the
  \<open>sync.WaitGroup\<close> \<open>wg\<close>), the goroutines that execute \<open>runTask\<close> and have
  not returned, the injections performed so far, and where the caller is. The
  mutex \<open>mu\<close> makes the guarded part of \<open>Start\<close> and of \<open>Stop\<close> one step each.
  \<open>Start\<close> and \<open>Stop\<close> are called by the button handlers, one call at a time, so
  there is one caller: it is either outside every call (\<open>Ready\<close>), or in the loop
  of \<open>Start\<close> with the tasks still to be launched (\<open>InStart\<close>), or blocked in the
  \<open>r.wg.Wait()\<close> of \<open>Stop\<close> (\<open>InWait\<close>). The steps of the goroutines interleave
  freely with those of the caller.

  The field \<open>stopCh\<close> is the only reference to its channel: \<open>runTask\<close> reads the
  field each time it executes the \<open>select\<close>. So the state of the channel is kept
  in the field: \<open>nil\<close>, made and open, or closed.
\<close>

datatype chan = NilChan | OpenChan | ClosedChan

datatype caller_pc = Ready | InStart "KeyTask list" | InWait

datatype platform = Darwin | Windows

text \<open>
  One tick of \<open>runTask\<close> calls \<open>keyTapUnicode\<close> (\<open>sendUnicode\<close> on Windows) with
  the rune, or \<open>keyTap\<close> with the key code (on Windows \<open>kb.Launching()\<close> of the
  key bonding that holds the code).
\<close>

datatype injection = KeyTap int | KeyTapUnicode rune

definition inject :: "KeyTask \<Rightarrow> injection" where
  "inject t = (if UseUnicode t then KeyTapUnicode (UnicodeRune t) else KeyTap (KeyCode t))"

text \<open>
  A goroutine started by \<open>go r.runTask(task)\<close>: a number that identifies it, its
  task, and whether it has reached the \<open>for\<close> loop.
\<close>

record goroutine =
  gid :: nat
  gtask :: KeyTask
  looping :: bool

record system =
  running :: bool
  stopCh :: chan
  wg :: int
  goroutines :: "goroutine list"
  spawned :: nat
  injections :: "(nat \<times> injection) list"
  caller :: caller_pc
  panicked :: bool

text \<open>\<open>runner := &Runner{}\<close> before any call.\<close>

definition initial :: system where
  "initial =
    \<lparr>running = False, stopCh = NilChan, wg = 0, goroutines = [], spawned = 0,
     injections = [], caller = Ready, panicked = False\<rparr>"

text \<open>The body of the loop of \<open>Start\<close>: \<open>r.wg.Add(1); go r.runTask(task)\<close>.\<close>

definition spawn :: "system \<Rightarrow> KeyTask \<Rightarrow> system" where
  "spawn s t =
    s\<lparr>wg := wg s + 1,
      goroutines := goroutines s @ [\<lparr>gid = spawned s, gtask = t, looping = False\<rparr>],
      spawned := spawned s + 1\<rparr>"

text \<open>
  \<open>Start\<close> up to \<open>r.mu.Unlock()\<close>. On a running runner it returns and the caller
  stays where it was; otherwise the caller goes on to the loop.
\<close>

definition Start_locked :: "KeyTask list \<Rightarrow> system \<Rightarrow> system" where
  "Start_locked tasks s =
    (if running s then s
     else s\<lparr>running := True, stopCh := OpenChan, caller := InStart tasks\<rparr>)"

text \<open>One iteration of the loop of \<open>Start\<close>, and its return after the last one.\<close>

definition Start_spawn :: "system \<Rightarrow> system option" where
  "Start_spawn s =
    (case caller s of
       InStart (t # ts) \<Rightarrow> Some ((spawn s t)\<lparr>caller := InStart ts\<rparr>)
     | _ \<Rightarrow> None)"

definition Start_return :: "system \<Rightarrow> system option" where
  "Start_return s =
    (case caller s of
       InStart [] \<Rightarrow> Some (s\<lparr>caller := Ready\<rparr>)
     | _ \<Rightarrow> None)"

text \<open>
  A whole call of \<open>Start\<close> with no step of a goroutine in between, as a function
  of the state in which it is made.
\<close>

definition Start :: "KeyTask list \<Rightarrow> system \<Rightarrow> system" where
  "Start tasks s =
    (if running s then s
     else foldl spawn (s\<lparr>running := True, stopCh := OpenChan\<rparr>) tasks)"

text \<open>
  \<open>Stop\<close> up to \<open>r.mu.Unlock()\<close>. When the runner is not running it returns and
  the caller stays \<open>Ready\<close>; otherwise the caller goes on to \<open>r.wg.Wait()\<close>.
  \<open>close\<close> of a channel that is \<open>nil\<close> or closed panics.
\<close>

definition Stop :: "system \<Rightarrow> system" where
  "Stop s =
    (if \<not> running s then s
     else if stopCh s \<noteq> OpenChan then s\<lparr>panicked := True\<rparr>
     else s\<lparr>stopCh := ClosedChan, running := False, caller := InWait\<rparr>)"

text \<open>\<open>r.wg.Wait()\<close> returns when the counter is zero and blocks otherwise.\<close>

definition Stop_Wait :: "system \<Rightarrow> system option" where
  "Stop_Wait s = (if wg s = 0 then Some (s\<lparr>caller := Ready\<rparr>) else None)"

definition IsRunning :: "system \<Rightarrow> bool" where
  "IsRunning s = running s"

text \<open>
  The return of \<open>runTask\<close>: the goroutine ends and the deferred \<open>r.wg.Done()\<close>
  runs, which panics when the counter would become negative.
\<close>

definition wgDone :: "system \<Rightarrow> system" where
  "wgDone s = (if wg s - 1 < 0 then s\<lparr>panicked := True\<rparr> else s\<lparr>wg := wg s - 1\<rparr>)"

definition return_runTask :: "nat \<Rightarrow> system \<Rightarrow> system" where
  "return_runTask i s = wgDone (s\<lparr>goroutines := filter (\<lambda>g. gid g \<noteq> i) (goroutines s)\<rparr>)"

text \<open>
  \<open>runTask\<close> before the loop. On Windows a key-code task first makes a key
  bonding and returns when that fails (\<open>bondErr\<close>). \<open>time.NewTicker\<close> panics on
  an interval that is not positive.
\<close>

definition runTask_begin :: "platform \<Rightarrow> bool \<Rightarrow> nat \<Rightarrow> system \<Rightarrow> system option" where
  "runTask_begin p bondErr i s =
    (case find (\<lambda>g. gid g = i) (goroutines s) of
       None \<Rightarrow> None
     | Some g \<Rightarrow>
        if looping g then None
        else if p = Windows \<and> \<not> UseUnicode (gtask g) \<and> bondErr then Some (return_runTask i s)
        else if Interval (gtask g) \<le> 0 then Some (s\<lparr>panicked := True\<rparr>)
        else Some (s\<lparr>goroutines :=
                     map (\<lambda>h. if gid h = i then h\<lparr>looping := True\<rparr> else h) (goroutines s)\<rparr>))"

text \<open>
  The two cases of the \<open>select\<close>. \<open>case <-ticker.C\<close> performs the injection and
  stays in the loop; when the tick arrives is not modelled, so it may be taken
  whenever the goroutine is in the loop. \<open>case <-r.stopCh\<close> can be taken only when
  the channel is closed (nothing is ever sent on it, and a receive on a \<open>nil\<close>
  channel blocks), and returns.
\<close>

definition runTask_tick :: "nat \<Rightarrow> system \<Rightarrow> system option" where
  "runTask_tick i s =
    (case find (\<lambda>g. gid g = i) (goroutines s) of
       None \<Rightarrow> None
     | Some g \<Rightarrow>
        if looping g then Some (s\<lparr>injections := injections s @ [(i, inject (gtask g))]\<rparr>)
        else None)"

definition runTask_stop :: "nat \<Rightarrow> system \<Rightarrow> system option" where
  "runTask_stop i s =
    (case find (\<lambda>g. gid g = i) (goroutines s) of
       None \<Rightarrow> None
     | Some g \<Rightarrow>
        if looping g \<and> stopCh s = ClosedChan then Some (return_runTask i s) else None)"

text \<open>
  The steps of the system. \<open>None\<close> means that the step cannot be taken in this
  state. After a panic the program is gone and no step can be taken.
\<close>

datatype action =
    CallStart "KeyTask list"
  | Spawn
  | StartReturns
  | CallStop
  | WaitReturns
  | Begin nat bool
  | Tick nat
  | Cancelled nat

definition step :: "platform \<Rightarrow> action \<Rightarrow> system \<Rightarrow> system option" where
  "step p a s =
    (if panicked s then None
     else (case a of
        CallStart tasks \<Rightarrow> if caller s = Ready then Some (Start_locked tasks s) else None
      | Spawn \<Rightarrow> Start_spawn s
      | StartReturns \<Rightarrow> Start_return s
      | CallStop \<Rightarrow> if caller s = Ready then Some (Stop s) else None
      | WaitReturns \<Rightarrow> if caller s = InWait then Stop_Wait s else None
      | Begin i bondErr \<Rightarrow> runTask_begin p bondErr i s
      | Tick i \<Rightarrow> runTask_tick i s
      | Cancelled i \<Rightarrow> runTask_stop i s))"

fun run :: "platform \<Rightarrow> action list \<Rightarrow> system \<Rightarrow> system option" where
  "run p [] s = Some s"
| "run p (a # as) s = (case step p a s of None \<Rightarrow> None | Some s' \<Rightarrow> run p as s')"

fun is_CallStart :: "action \<Rightarrow> bool" where
  "is_CallStart (CallStart tasks) = True"
| "is_CallStart a = False"

text \<open>
  The actions of a whole call of \<open>Start\<close> in a row.
\<close>

definition startCall :: "KeyTask list \<Rightarrow> system \<Rightarrow> action list" where
  "startCall tasks s =
    (if running s then [CallStart tasks]
     else CallStart tasks # replicate (length tasks) Spawn @ [StartReturns])"

text \<open>
  What the proofs below maintain along every run from \<open>initial\<close>: \<open>running\<close>
  holds exactly while the channel is open; \<open>wg\<close> counts the goroutines that have
  not returned; the caller is in the loop of \<open>Start\<close> only when \<open>running\<close> is
  true and waits in \<open>Stop\<close> only when it is false; between calls a runner that is
  not running has no goroutine; the goroutines' numbers are distinct and below
  \<open>spawned\<close>.
\<close>

definition inv :: "system \<Rightarrow> bool" where
  "inv s \<longleftrightarrow>
     (running s \<longleftrightarrow> stopCh s = OpenChan)
     \<and> wg s = int (length (goroutines s))
     \<and> (caller s = InWait \<longrightarrow> \<not> running s)
     \<and> (\<forall>ts. caller s = InStart ts \<longrightarrow> running s)
     \<and> (caller s = Ready \<and> \<not> running s \<longrightarrow> goroutines s = [])
     \<and> distinct (map gid (goroutines s))
     \<and> (\<forall>g \<in> set (goroutines s). gid g < spawned s)"

text \<open>Nothing is running and no call is in progress.\<close>

definition quiescent :: "system \<Rightarrow> bool" where
  "quiescent s \<longleftrightarrow> goroutines s = [] \<and> \<not> running s \<and> caller s = Ready"


text \<open>The task that \<open>main\<close> builds from its initial entry, key A every 1000 ms.\<close>

definition defaultTask :: KeyTask where
  "defaultTask = \<lparr>KeyCode = 0, UnicodeRune = 0x41, UseUnicode = True, Interval = 1000000000\<rparr>"

section \<open>The Start button\<close>

















section \<open>Properties of key resolution\<close>

subsection \<open>Runes and upper-casing\<close>

lemma runes_Nil [simp]: "runes [] = []"
  by (simp add: runes.simps)

lemma runes_eq_Nil_iff [simp]: "runes s = [] \<longleftrightarrow> s = []"
  by (subst runes.simps) (simp split: prod.splits)

lemma EncodeRune_not_Nil [simp]: "EncodeRune r \<noteq> []"
  by (simp add: EncodeRune_def Let_def)

lemma runes_ascii:
  "list_all (\<lambda>c. byte c < RuneSelf) s \<Longrightarrow> runes s = map byte s"
proof (induction s)
  case Nil
  then show ?case by simp
next
  case (Cons c cs)
  then have "DecodeRuneInString (c # cs) = (byte c, 1)"
    by (simp add: DecodeRuneInString_def)
  then have "runes (c # cs) = byte c # runes cs"
    by (subst runes.simps) simp
  with Cons show ?case by simp
qed

lemma length_concat_ge:
  "(\<And>x. x \<in> set xs \<Longrightarrow> f x \<noteq> []) \<Longrightarrow> length xs \<le> length (concat (map f xs))"
proof (induction xs)
  case Nil
  then show ?case by simp
next
  case (Cons x xs)
  then have "1 \<le> length (f x)" by (cases "f x") simp_all
  with Cons show ?case by simp
qed

lemma length_runes_le_ToUpper: "length (runes s) \<le> length (ToUpper tbl s)"
proof (cases "list_all (\<lambda>c. byte c < RuneSelf) s")
  case True
  then show ?thesis by (simp add: ToUpper_def runes_ascii)
next
  case False
  then show ?thesis
    by (simp add: ToUpper_def Map_def length_concat_ge)
qed

lemma ToUpper_eq_Nil_iff: "ToUpper tbl s = [] \<longleftrightarrow> s = []"
proof
  assume "ToUpper tbl s = []"
  then have "length (runes s) = 0" using length_runes_le_ToUpper [of s tbl] by simp
  then show "s = []" by simp
next
  assume "s = []"
  then show "ToUpper tbl s = []" by (simp add: ToUpper_def)
qed

lemma letter_digit_guard_false:
  assumes "s \<noteq> []" and "length (runes s) \<noteq> 1"
  shows "length (ToUpper tbl s) \<noteq> 1"
proof -
  from assms(1) have "runes s \<noteq> []" by simp
  then have "length (runes s) \<noteq> 0" by simp
  with assms(2) have "2 \<le> length (runes s)" by arith
  with length_runes_le_ToUpper [of s tbl] show ?thesis by arith
qed

lemma byte_char_of: "byte (char_of (n::nat)) = n mod 256"
  by (simp add: byte_def)

lemma EncodeRune_shape:
  "length (EncodeRune r) = 1 \<or> RuneSelf \<le> byte (hd (EncodeRune r))"
proof -
  have a: "r \<le> 0x7FF \<Longrightarrow> (192 + r div 64) mod 256 = 192 + r div 64" by simp
  have b: "q \<le> 0xFFFF \<Longrightarrow> (224 + q div 4096) mod 256 = 224 + q div 4096" for q :: nat by simp
  have c: "q \<le> 0x10FFFF \<Longrightarrow> (240 + q div 262144) mod 256 = 240 + q div 262144" for q :: nat by simp
  show ?thesis
    unfolding EncodeRune_def Let_def RuneSelf_def RuneError_def
    by (auto simp: byte_char_of a b c)
qed

lemma single_rune_ToUpper_shape:
  assumes "length (runes s) = 1"
  shows "length (ToUpper tbl s) = 1 \<or> RuneSelf \<le> byte (hd (ToUpper tbl s))"
proof (cases "list_all (\<lambda>c. byte c < RuneSelf) s")
  case True
  with assms show ?thesis by (simp add: ToUpper_def runes_ascii)
next
  case False
  from assms obtain r where "runes s = [r]" by (cases "runes s") simp_all
  with False show ?thesis
    using EncodeRune_shape [of "unicode_ToUpper tbl r"] by (simp add: ToUpper_def Map_def)
qed

lemma keyNames_shape:
  "name \<in> set keyNames \<Longrightarrow> length name \<noteq> 1 \<and> byte (hd name) < RuneSelf"
  by (auto simp: keyNames_def namedKeyTable_def byte_def RuneSelf_def)

lemma named_key_multi_rune:
  assumes "ToUpper tbl s \<in> set keyNames"
  shows "length (runes s) \<noteq> 1"
  using keyNames_shape [OF assms] single_rune_ToUpper_shape [of s tbl] by auto


text \<open>
  An input that equals a key name up to the case of its ASCII letters, after
  trimming, has that name as its upper-cased form, whatever the table.
\<close>

lemma upperByte_ascii: "byte (upperByte c) < RuneSelf \<Longrightarrow> byte c < RuneSelf"
  by (auto simp: upperByte_def RuneSelf_def split: if_splits)

lemma ToUpper_ascii_fold:
  assumes "map upperByte t = name" and "list_all (\<lambda>c. byte c < RuneSelf) name"
  shows "ToUpper tbl t = name"
proof -
  from assms have "list_all (\<lambda>c. byte (upperByte c) < RuneSelf) t"
    by (auto simp: list_all_iff)
  then have "list_all (\<lambda>c. byte c < RuneSelf) t"
    by (auto simp: list_all_iff dest: upperByte_ascii)
  with assms(1) show ?thesis by (simp add: ToUpper_def)
qed

lemma keyNames_upper:
  "name \<in> set keyNames \<Longrightarrow> map upperByte name = name \<and> list_all (\<lambda>c. byte c < RuneSelf) name"
proof -
  have "list_all (\<lambda>name. map upperByte name = name \<and> list_all (\<lambda>c. byte c < RuneSelf) name) keyNames"
    by code_simp
  then show "name \<in> set keyNames \<Longrightarrow> map upperByte name = name \<and> list_all (\<lambda>c. byte c < RuneSelf) name"
    by (simp add: list_all_iff)
qed

lemma named_key_ascii_fold:
  assumes "name \<in> set keyNames" and "map upperByte (TrimSpace input) = map upperByte name"
  shows "ToUpper tbl (TrimSpace input) = name"
  using assms keyNames_upper [OF assms(1)] ToUpper_ascii_fold [of "TrimSpace input" name tbl]
  by simp

subsection \<open>Blank strings\<close>

text \<open>
  \<open>TrimSpace\<close> returns the empty string exactly for the strings that consist of
  white space only, that is, whose runes all satisfy \<open>unicode.IsSpace\<close>.
\<close>

lemma asciiSpace_IsSpace: "byte c < RuneSelf \<Longrightarrow> asciiSpace c \<longleftrightarrow> IsSpace (byte c)"
  by (auto simp: asciiSpace_def IsSpace_def RuneSelf_def)

lemma not_IsSpace_RuneError [simp]: "\<not> IsSpace RuneError"
  by (simp add: IsSpace_def RuneError_def)

lemma runes_Cons:
  "s \<noteq> [] \<Longrightarrow> runes s = fst (DecodeRuneInString s) # runes (drop (snd (DecodeRuneInString s)) s)"
  by (subst runes.simps) (simp split: prod.splits)

lemma indexFunc_None_iff: "indexFunc s f False = None \<longleftrightarrow> list_all f (runes s)"
proof (induction s f False rule: indexFunc.induct)
  case (1 s f)
  show ?case
  proof (cases "s = []")
    case True
    then show ?thesis by (simp add: indexFunc.simps)
  next
    case False
    obtain r w where d: "DecodeRuneInString s = (r, w)" by (cases "DecodeRuneInString s")
    show ?thesis
    proof (cases "f r")
      case True
      then have "indexFunc (drop w s) f False = None \<longleftrightarrow> list_all f (runes (drop w s))"
        using 1 [OF False d [symmetric]] by simp
      moreover have "indexFunc s f False = None \<longleftrightarrow> indexFunc (drop w s) f False = None"
        using False d True by (subst indexFunc.simps) (simp split: option.splits)
      ultimately show ?thesis using False d True by (simp add: runes_Cons)
    next
      case nf: False
      then have "indexFunc s f False = Some 0"
        using False d by (subst indexFunc.simps) simp
      with nf False d show ?thesis by (simp add: runes_Cons)
    qed
  qed
qed

lemma indexFunc_Some:
  "indexFunc s f False = Some i \<Longrightarrow> i < length s \<and> \<not> f (fst (DecodeRuneInString (drop i s)))"
proof (induction s f False arbitrary: i rule: indexFunc.induct)
  case (1 s f)
  from "1.prems" have ne: "s \<noteq> []" by (auto simp: indexFunc.simps)
  obtain r w where d: "DecodeRuneInString s = (r, w)" by (cases "DecodeRuneInString s")
  show ?case
  proof (cases "f r")
    case True
    with "1.prems" ne d obtain j where j: "indexFunc (drop w s) f False = Some j" "i = w + j"
      by (subst (asm) indexFunc.simps) (auto split: option.splits)
    from "1.hyps" [OF ne d [symmetric] _ j(1)] True
    have "j < length (drop w s)" "\<not> f (fst (DecodeRuneInString (drop j (drop w s))))" by simp_all
    with j(2) show ?thesis by (simp add: add.commute)
  next
    case False
    with "1.prems" ne d have "i = 0"
      by (subst (asm) indexFunc.simps) auto
    with False ne d show ?thesis by simp
  qed
qed

lemma DecodeRuneInString_take:
  assumes "1 \<le> k"
  shows "fst (DecodeRuneInString (take k s)) = fst (DecodeRuneInString s)
       \<or> fst (DecodeRuneInString (take k s)) = RuneError"
proof (cases s)
  case Nil
  then show ?thesis by simp
next
  case (Cons c0 cs)
  from assms obtain m where k: "k = Suc m" by (cases k) simp_all
  show ?thesis
    unfolding Cons k
    by (auto simp: DecodeRuneInString_def Let_def)
qed

lemma DecodeLastRuneInString_width_le: "snd (DecodeLastRuneInString s) \<le> length s"
  by (auto simp: DecodeLastRuneInString_def Let_def Suc_le_eq split: prod.splits)

lemma DecodeLastRuneInString_whole:
  assumes "DecodeLastRuneInString s = (r, length s)"
  shows "r = RuneError \<or> DecodeRuneInString s = (r, length s)"
proof (cases "s = []")
  case True
  with assms show ?thesis by (simp add: DecodeLastRuneInString_def)
next
  case False
  let ?n = "int (length s)"
  show ?thesis
  proof (cases "byte (s ! nat (?n - 1)) < RuneSelf")
    case True
    with assms False have "length s = 1" "r = byte (s ! 0)"
      by (auto simp: DecodeLastRuneInString_def Let_def)
    then obtain c where "s = [c]" by (cases s) auto
    with True \<open>r = byte (s ! 0)\<close> show ?thesis
      by (simp add: DecodeRuneInString_def)
  next
    case nonascii: False
    define st where
      "st = (let start1 = scanBack s (max 0 (?n - 4)) (?n - 1 - 1)
             in if start1 < 0 then 0 else start1)"
    obtain r' w' where d: "DecodeRuneInString (drop (nat st) s) = (r', w')"
      by (cases "DecodeRuneInString (drop (nat st) s)")
    have "DecodeLastRuneInString s =
        (case DecodeRuneInString (drop (nat st) s) of (r, wid) \<Rightarrow>
           if st + int wid \<noteq> ?n then (RuneError, 1) else (r, wid))"
      using False nonascii unfolding DecodeLastRuneInString_def st_def Let_def by simp
    with assms d
    have res: "(if st + int w' \<noteq> ?n then (RuneError, 1) else (r', w')) = (r, length s)"
      by simp
    show ?thesis
    proof (cases "st + int w' \<noteq> ?n")
      case True
      with res show ?thesis by simp
    next
      case eq: False
      with res have "r' = r" "w' = length s" by simp_all
      with eq have "st = 0" by simp
      with d \<open>r' = r\<close> \<open>w' = length s\<close> show ?thesis by simp
    qed
  qed
qed

lemma lastIndexFunc_lt: "lastIndexFunc s f truth = Some i \<Longrightarrow> i < length s"
proof (induction s f truth arbitrary: i rule: lastIndexFunc.induct)
  case (1 s f truth)
  from "1.prems" have ne: "s \<noteq> []" by (auto simp: lastIndexFunc.simps)
  obtain r wid where d: "DecodeLastRuneInString s = (r, wid)"
    by (cases "DecodeLastRuneInString s")
  have w: "1 \<le> wid" using DecodeLastRuneInString_width_pos [OF ne] d by simp
  show ?case
  proof (cases "f r = truth")
    case True
    with "1.prems" ne d have "i = length s - wid"
      by (subst (asm) lastIndexFunc.simps) (simp add: Let_def)
    with w ne show ?thesis by (cases s) simp_all
  next
    case False
    with "1.prems" ne d have "lastIndexFunc (take (length s - wid) s) f truth = Some i"
      by (subst (asm) lastIndexFunc.simps) (simp add: Let_def)
    from "1.IH" [OF ne d [symmetric] refl False this] show ?thesis by simp
  qed
qed

lemma lastIndexFunc_Some:
  assumes "s \<noteq> []" and "\<not> f (fst (DecodeRuneInString s))" and "\<not> f RuneError"
  shows "lastIndexFunc s f False \<noteq> None"
  using assms
proof (induction s f False rule: lastIndexFunc.induct)
  case (1 s f)
  obtain r wid where d: "DecodeLastRuneInString s = (r, wid)"
    by (cases "DecodeLastRuneInString s")
  have w: "1 \<le> wid" "wid \<le> length s"
    using DecodeLastRuneInString_width_pos [OF "1.prems"(1)]
      DecodeLastRuneInString_width_le [of s] d by simp_all
  show ?case
  proof (cases "f r")
    case False
    with "1.prems"(1) d show ?thesis
      by (subst lastIndexFunc.simps) (simp add: Let_def)
  next
    case True
    have "wid \<noteq> length s"
    proof
      assume "wid = length s"
      with d DecodeLastRuneInString_whole [of s r]
      have "r = RuneError \<or> DecodeRuneInString s = (r, length s)" by simp
      with True "1.prems" show False by auto
    qed
    with w have k: "1 \<le> length s - wid" by simp
    let ?p = "take (length s - wid) s"
    from k "1.prems"(1) have pne: "?p \<noteq> []" by (cases s) auto
    have "\<not> f (fst (DecodeRuneInString ?p))"
      using DecodeRuneInString_take [OF k, of s] "1.prems" by auto
    with "1.hyps" [OF "1.prems"(1) d [symmetric] refl _ pne] True "1.prems"(3)
    have "lastIndexFunc ?p f False \<noteq> None" by simp
    moreover have "lastIndexFunc s f False = lastIndexFunc ?p f False"
      using "1.prems"(1) d True by (subst lastIndexFunc.simps) (simp add: Let_def)
    ultimately show ?thesis by simp
  qed
qed

lemma TrimRightFunc_not_Nil:
  assumes "s \<noteq> []" and "\<not> f (fst (DecodeRuneInString s))" and "\<not> f RuneError"
  shows "TrimRightFunc s f \<noteq> []"
proof -
  from lastIndexFunc_Some [OF assms] obtain i where i: "lastIndexFunc s f False = Some i"
    by auto
  then have lt: "i < length s" by (rule lastIndexFunc_lt)
  then have "1 \<le> snd (DecodeRuneInString (drop i s))"
    by (intro DecodeRuneInString_width_pos) simp
  with i lt assms(1) show ?thesis
    by (auto simp: TrimRightFunc_def)
qed

lemma TrimRightFunc_Nil [simp]: "TrimRightFunc [] f = []"
  by (simp add: TrimRightFunc_def split: option.splits)

lemma TrimFunc_eq_Nil_iff:
  assumes "\<not> f RuneError"
  shows "TrimFunc s f = [] \<longleftrightarrow> list_all f (runes s)"
proof (cases "indexFunc s f False")
  case None
  then show ?thesis
    using indexFunc_None_iff [of s f] by (simp add: TrimFunc_def TrimLeftFunc_def)
next
  case (Some i)
  from indexFunc_Some [OF Some]
  have "drop i s \<noteq> []" "\<not> f (fst (DecodeRuneInString (drop i s)))" by simp_all
  then have "TrimRightFunc (drop i s) f \<noteq> []"
    using assms by (rule TrimRightFunc_not_Nil)
  moreover have "\<not> list_all f (runes s)"
    using indexFunc_None_iff [of s f] Some by simp
  ultimately show ?thesis using Some by (simp add: TrimFunc_def TrimLeftFunc_def)
qed

lemma trimStop_not_Nil:
  assumes "s \<noteq> []" and "byte (hd s) < RuneSelf" and "\<not> asciiSpace (hd s)"
  shows "trimStop s \<noteq> []"
  using assms
proof (induction s rule: trimStop.induct)
  case (1 s)
  from "1.prems" have first: "\<not> IsSpace (fst (DecodeRuneInString s))"
    by (cases s) (simp_all add: DecodeRuneInString_def asciiSpace_IsSpace)
  show ?case
  proof (cases "RuneSelf \<le> byte (last s)")
    case True
    then have "trimStop s = TrimRightFunc s IsSpace"
      using "1.prems"(1) by (subst trimStop.simps) (simp add: Let_def)
    with TrimRightFunc_not_Nil [of s IsSpace, OF "1.prems"(1) first] show ?thesis by simp
  next
    case ascii: False
    show ?thesis
    proof (cases "asciiSpace (last s)")
      case True
      with "1.prems" have "last s \<noteq> hd s" by auto
      with "1.prems"(1) have bl: "butlast s \<noteq> []" "hd (butlast s) = hd s"
        by (cases s; cases "tl s"; auto)+
      have "trimStop s = trimStop (butlast s)"
        using "1.prems"(1) ascii True by (subst trimStop.simps) (simp add: Let_def)
      moreover have "trimStop (butlast s) \<noteq> []"
        using "1.IH" [OF "1.prems"(1) refl _ True bl(1)] ascii bl(2) "1.prems" by simp
      ultimately show ?thesis by simp
    next
      case False
      then have "trimStop s = s"
        using "1.prems"(1) ascii by (subst trimStop.simps) (simp add: Let_def)
      with "1.prems"(1) show ?thesis by simp
    qed
  qed
qed

lemma TrimSpace_eq_Nil_iff: "TrimSpace s = [] \<longleftrightarrow> list_all IsSpace (runes s)"
proof (induction s rule: TrimSpace.induct)
  case 1
  then show ?case by simp
next
  case (2 c cs)
  show ?case
  proof (cases "RuneSelf \<le> byte c")
    case True
    then show ?thesis by (simp add: TrimFunc_eq_Nil_iff)
  next
    case False
    then have d: "DecodeRuneInString (c # cs) = (byte c, 1)"
      by (simp add: DecodeRuneInString_def)
    then have r: "runes (c # cs) = byte c # runes cs" by (simp add: runes_Cons)
    show ?thesis
    proof (cases "asciiSpace c")
      case True
      with False 2 r show ?thesis by (simp add: asciiSpace_IsSpace)
    next
      case ns: False
      with False have "trimStop (c # cs) \<noteq> []" by (intro trimStop_not_Nil) simp_all
      with False ns r show ?thesis by (simp add: asciiSpace_IsSpace)
    qed
  qed
qed


subsection \<open>The four outcomes of resolution\<close>

lemma parse_blank:
  assumes "TrimSpace input = []"
  shows "parseMacInput tbl input = Inl ''empty key''
       \<and> parseKeyInput vk tbl input = Inl ''empty key''"
  using assms by (simp add: parseMacInput_def parseKeyInput_def ToUpper_eq_Nil_iff)

lemma parse_single_rune:
  assumes "runes (TrimSpace input) = [r]"
  shows "parseMacInput tbl input = Inr (zeroTask\<lparr>UnicodeRune := r, UseUnicode := True\<rparr>)
       \<and> parseKeyInput vk tbl input = Inr (zeroTask\<lparr>UnicodeRune := r, UseUnicode := True\<rparr>)"
proof -
  from assms have "TrimSpace input \<noteq> []" by auto
  then have "ToUpper tbl (TrimSpace input) \<noteq> []" by (simp add: ToUpper_eq_Nil_iff)
  with assms show ?thesis
    by (simp add: parseMacInput_def parseKeyInput_def Let_def)
qed

lemma parse_named:
  assumes "(name, mac, win) \<in> set namedKeyTable"
      and "ToUpper tbl (TrimSpace input) = name"
  shows "parseMacInput tbl input = Inr (zeroTask\<lparr>KeyCode := mac\<rparr>)
       \<and> parseKeyInput vk tbl input = Inr (zeroTask\<lparr>KeyCode := vk win\<rparr>)"
proof -
  let ?key = "ToUpper tbl (TrimSpace input)"
  from assms have mem: "?key \<in> set keyNames" by (force simp: keyNames_def)
  then have rs: "length (runes (TrimSpace input)) \<noteq> 1" by (rule named_key_multi_rune)
  from mem have len: "length ?key \<noteq> 1" using keyNames_shape by blast
  from mem have ne: "?key \<noteq> []" by (auto simp: keyNames_def namedKeyTable_def)
  have mac: "parseMacInput tbl input = Inr (zeroTask\<lparr>KeyCode := mac\<rparr>)"
    using assms rs ne
    unfolding parseMacInput_def Let_def namedKeyTable_def macFunctionKeys_def macFunctionKeyCode_def
      macFunctionCases_def
    by auto
  have win: "parseKeyInput vk tbl input = Inr (zeroTask\<lparr>KeyCode := vk win\<rparr>)"
    using assms rs ne
    unfolding parseKeyInput_def Let_def namedKeyTable_def winNamedCases_def
    by auto
  from mac win show ?thesis by simp
qed


lemma parse_unmatched:
  assumes "TrimSpace input \<noteq> []"
      and "length (runes (TrimSpace input)) \<noteq> 1"
      and "ToUpper tbl (TrimSpace input) \<notin> set keyNames"
  shows "parseMacInput tbl input = Inl (''unsupported key: '' @ input)
       \<and> parseKeyInput vk tbl input = Inl (''unsupported key: '' @ input)"
proof -
  let ?key = "ToUpper tbl (TrimSpace input)"
  from assms have ne: "?key \<noteq> []" by (simp add: ToUpper_eq_Nil_iff)
  from assms have len: "length ?key \<noteq> 1" by (intro letter_digit_guard_false)
  have mac: "parseMacInput tbl input = Inl (''unsupported key: '' @ input)"
    using assms ne len
    unfolding parseMacInput_def Let_def keyNames_def namedKeyTable_def macFunctionKeys_def
    by simp
  have win: "parseKeyInput vk tbl input = Inl (''unsupported key: '' @ input)"
    using assms ne len
    unfolding parseKeyInput_def Let_def keyNames_def namedKeyTable_def winNamedCases_def
    by simp
  from mac win show ?thesis by simp
qed

lemma length_runes_cases:
  "TrimSpace input = [] \<or> (\<exists>r. runes (TrimSpace input) = [r]) \<or> 1 < length (runes (TrimSpace input))"
proof (cases "runes (TrimSpace input)")
  case Nil
  then show ?thesis by simp
next
  case (Cons r rs)
  then show ?thesis by (cases rs) simp_all
qed

lemma parse_fails_iff:
  "(isl (parseMacInput tbl input) \<longleftrightarrow>
      list_all IsSpace (runes input)
      \<or> (1 < length (runes (TrimSpace input)) \<and> ToUpper tbl (TrimSpace input) \<notin> set keyNames))
   \<and> (isl (parseKeyInput vk tbl input) \<longleftrightarrow>
      list_all IsSpace (runes input)
      \<or> (1 < length (runes (TrimSpace input)) \<and> ToUpper tbl (TrimSpace input) \<notin> set keyNames))"
proof -
  let ?t = "TrimSpace input"
  consider (blank) "?t = []" | (single) r where "runes ?t = [r]" | (multi) "1 < length (runes ?t)"
    using length_runes_cases [of input] by blast
  then show ?thesis
  proof cases
    case blank
    with parse_blank [OF blank, of tbl vk] show ?thesis
      by (simp add: TrimSpace_eq_Nil_iff)
  next
    case single
    then have "?t \<noteq> []" by auto
    with parse_single_rune [OF single, of tbl vk] single show ?thesis
      by (simp add: TrimSpace_eq_Nil_iff)
  next
    case multi
    then have ne: "?t \<noteq> []" and n1: "length (runes ?t) \<noteq> 1" by auto
    show ?thesis
    proof (cases "ToUpper tbl ?t \<in> set keyNames")
      case True
      then obtain mac win where "(ToUpper tbl ?t, mac, win) \<in> set namedKeyTable"
        by (auto simp: keyNames_def)
      from parse_named [OF this refl, of vk] True ne show ?thesis
        by (simp add: TrimSpace_eq_Nil_iff)
    next
      case False
      from parse_unmatched [OF ne n1 False, of vk] False multi show ?thesis
        by simp
    qed
  qed
qed

lemma macLetterKeyCode_table:
  "macLetterKeyCode ch = (code, True) \<Longrightarrow> code \<in> snd ` set macLetterCases"
  unfolding macLetterKeyCode_def
  by (cases "map_of macLetterCases ch") (auto dest!: map_of_SomeD intro: rev_image_eqI)

lemma macDigitKeyCode_table:
  "macDigitKeyCode ch = (code, True) \<Longrightarrow> code \<in> snd ` set macDigitCases"
  unfolding macDigitKeyCode_def
  by (cases "map_of macDigitCases ch") (auto dest!: map_of_SomeD intro: rev_image_eqI)

lemma namedKeyTable_checked:
  "list_all (\<lambda>(name, mac, win).
      map_of winNamedCases name = Some win
      \<and> mac \<notin> set (map snd macLetterCases) \<and> mac \<notin> set (map snd macDigitCases))
    namedKeyTable"
  by code_simp

lemma namedKeyTable_win:
  "(name, mac, win) \<in> set namedKeyTable \<Longrightarrow> map_of winNamedCases name = Some win"
  using namedKeyTable_checked by (auto simp: list_all_iff)

lemma namedKeyTable_mac:
  "(name, mac, win) \<in> set namedKeyTable \<Longrightarrow>
     mac \<notin> snd ` set macLetterCases \<and> mac \<notin> snd ` set macDigitCases"
  using namedKeyTable_checked by (auto simp: list_all_iff)

lemma parse_key_code:
  assumes "\<not> UseUnicode t"
  shows "(parseMacInput tbl input = Inr t \<longrightarrow>
            (\<exists>name mac win. (name, mac, win) \<in> set namedKeyTable
               \<and> ToUpper tbl (TrimSpace input) = name \<and> t = zeroTask\<lparr>KeyCode := mac\<rparr>))
       \<and> (parseKeyInput vk tbl input = Inr t \<longrightarrow>
            (\<exists>name mac win. (name, mac, win) \<in> set namedKeyTable
               \<and> ToUpper tbl (TrimSpace input) = name \<and> t = zeroTask\<lparr>KeyCode := vk win\<rparr>))"
proof -
  let ?t = "TrimSpace input"
  consider (blank) "?t = []" | (single) r where "runes ?t = [r]" | (multi) "1 < length (runes ?t)"
    using length_runes_cases [of input] by blast
  then show ?thesis
  proof cases
    case blank
    with parse_blank [OF blank, of tbl vk] show ?thesis by simp
  next
    case single
    with parse_single_rune [OF single, of tbl vk] assms show ?thesis by auto
  next
    case multi
    then have ne: "?t \<noteq> []" and n1: "length (runes ?t) \<noteq> 1" by auto
    show ?thesis
    proof (cases "ToUpper tbl ?t \<in> set keyNames")
      case True
      then obtain mac win where m: "(ToUpper tbl ?t, mac, win) \<in> set namedKeyTable"
        by (auto simp: keyNames_def)
      from parse_named [OF m refl, of vk] m show ?thesis by auto
    next
      case False
      from parse_unmatched [OF ne n1 False, of vk] show ?thesis by simp
    qed
  qed
qed


subsection \<open>The claims about key resolution\<close>

text \<open>
  C1. When the trimmed input is exactly one rune, resolution succeeds on both
  platforms and returns the Unicode-injection task: \<open>UseUnicode\<close> is set,
  \<open>UnicodeRune\<close> is that rune as it was typed (not upper-cased), and no key
  code is filled in. This holds for letters and digits as for every other
  character.
\<close>

theorem single_rune_is_unicode:
  assumes "runes (TrimSpace input) = [r]"
  shows "parseMacInput tbl input = Inr (zeroTask\<lparr>UnicodeRune := r, UseUnicode := True\<rparr>)
       \<and> parseKeyInput vk tbl input = Inr (zeroTask\<lparr>UnicodeRune := r, UseUnicode := True\<rparr>)"
  using assms by (rule parse_single_rune)

theorem single_rune_is_unicode_witness:
  "runes (TrimSpace '' a '') = [0x61]
   \<and> parseMacInput (\<lambda>r. r) '' a ''
       = Inr \<lparr>KeyCode = 0, UnicodeRune = 0x61, UseUnicode = True, Interval = 0\<rparr>
   \<and> parseKeyInput (\<lambda>c. 0) (\<lambda>r. r) '' a ''
       = Inr \<lparr>KeyCode = 0, UnicodeRune = 0x61, UseUnicode = True, Interval = 0\<rparr>"
proof -
  have h: "runes (TrimSpace '' a '') = [0x61]" by code_simp
  show ?thesis
    using h single_rune_is_unicode [OF h, of "\<lambda>r. r" "\<lambda>c. 0"]
    by (simp add: zeroTask_def)
qed

text \<open>
  C7. An input whose trimmed form, upper-cased, is one of the key names SPACE,
  ENTER, ESC, ESCAPE, TAB, UP, DOWN, LEFT, RIGHT, F1 to F12 resolves to the fixed
  key code of that name: the macOS code of the table, and on Windows the value of
  the constant of the table. The result is determined by the name alone, so any
  two inputs that match the same name, and any two calls with the same input, give
  the same task. Such an input always has more than one character
  (\<open>named_key_multi_rune\<close>), and every input that equals a key name up to the
  case of its ASCII letters is such an input (\<open>named_key_ascii_fold\<close>).
\<close>

theorem named_key_resolution:
  assumes "(name, mac, win) \<in> set namedKeyTable"
      and "ToUpper tbl (TrimSpace input) = name"
  shows "parseMacInput tbl input = Inr (zeroTask\<lparr>KeyCode := mac\<rparr>)
       \<and> parseKeyInput vk tbl input = Inr (zeroTask\<lparr>KeyCode := vk win\<rparr>)"
  using assms by (rule parse_named)

theorem named_key_resolution_witness:
  "(''ESC'', 53, ''VK_ESC'') \<in> set namedKeyTable
   \<and> ToUpper (\<lambda>r. r) (TrimSpace '' eSc '') = ''ESC''
   \<and> parseMacInput (\<lambda>r. r) '' eSc ''
       = Inr \<lparr>KeyCode = 53, UnicodeRune = 0, UseUnicode = False, Interval = 0\<rparr>
   \<and> parseKeyInput (\<lambda>c. int (length c)) (\<lambda>r. r) '' eSc ''
       = Inr \<lparr>KeyCode = 6, UnicodeRune = 0, UseUnicode = False, Interval = 0\<rparr>"
proof -
  have m: "(''ESC'', 53, ''VK_ESC'') \<in> set namedKeyTable"
    by (simp add: namedKeyTable_def)
  have u: "ToUpper (\<lambda>r. r) (TrimSpace '' eSc '') = ''ESC''" by code_simp
  show ?thesis
    using m u named_key_resolution [OF m u, of "\<lambda>c. int (length c)"]
    by (simp add: zeroTask_def)
qed

text \<open>
  C8. On both platforms resolution fails exactly when the input is empty or
  consists of white space only, or when the trimmed input has more than one
  character and its upper-cased form is none of the key names; in every other
  case it returns a task. (The error is ``empty key'' in the first case and
  ``unsupported key'' followed by the input in the second: \<open>parse_blank\<close>,
  \<open>parse_unmatched\<close>.)
\<close>

theorem resolution_fails_iff:
  "(isl (parseMacInput tbl input) \<longleftrightarrow>
      list_all IsSpace (runes input)
      \<or> (1 < length (runes (TrimSpace input)) \<and> ToUpper tbl (TrimSpace input) \<notin> set keyNames))
   \<and> (isl (parseKeyInput vk tbl input) \<longleftrightarrow>
      list_all IsSpace (runes input)
      \<or> (1 < length (runes (TrimSpace input)) \<and> ToUpper tbl (TrimSpace input) \<notin> set keyNames))"
  by (rule parse_fails_iff)

theorem resolution_fails_iff_witness:
  "1 < length (runes (TrimSpace ''f13''))
   \<and> ToUpper (\<lambda>r. r) (TrimSpace ''f13'') \<notin> set keyNames
   \<and> isl (parseMacInput (\<lambda>r. r) ''f13'')
   \<and> isl (parseKeyInput (\<lambda>c. 0) (\<lambda>r. r) ''f13'')
   \<and> \<not> list_all IsSpace (runes ''f12'')
   \<and> ToUpper (\<lambda>r. r) (TrimSpace ''f12'') \<in> set keyNames
   \<and> \<not> isl (parseMacInput (\<lambda>r. r) ''f12'')
   \<and> \<not> isl (parseKeyInput (\<lambda>c. 0) (\<lambda>r. r) ''f12'')"
proof -
  have a: "1 < length (runes (TrimSpace ''f13''))" by code_simp
  have b: "ToUpper (\<lambda>r. r) (TrimSpace ''f13'') \<notin> set keyNames" by code_simp
  have c: "\<not> list_all IsSpace (runes ''f12'')" by code_simp
  have d: "ToUpper (\<lambda>r. r) (TrimSpace ''f12'') \<in> set keyNames" by code_simp
  show ?thesis
    using a b c d
      resolution_fails_iff [of "\<lambda>r. r" "''f13''" "\<lambda>c. 0"]
      resolution_fails_iff [of "\<lambda>r. r" "''f12''" "\<lambda>c. 0"]
    by simp
qed

text \<open>
  C10. The letter and digit code tables are never used, whatever the input.
  When control reaches the test \<open>len(key) == 1\<close> (the key is not empty and the
  trimmed input is not a single rune), the test is false, because upper-casing
  never yields fewer bytes than the input has runes. Hence a task that carries
  a key code comes from the named-key \<open>switch\<close>: on macOS its code is no code of
  \<open>macLetterKeyCode\<close> or \<open>macDigitKeyCode\<close>, on Windows it is the constant of
  the named key that the upper-cased input equals.
\<close>

theorem letter_digit_codes_unreachable:
  "(ToUpper tbl (TrimSpace input) \<noteq> [] \<and> length (runes (TrimSpace input)) \<noteq> 1
      \<longrightarrow> length (ToUpper tbl (TrimSpace input)) \<noteq> 1)
   \<and> (\<forall>t. parseMacInput tbl input = Inr t \<and> \<not> UseUnicode t
      \<longrightarrow> (\<forall>ch. macLetterKeyCode ch \<noteq> (KeyCode t, True)
                \<and> macDigitKeyCode ch \<noteq> (KeyCode t, True)))
   \<and> (\<forall>t. parseKeyInput vk tbl input = Inr t \<and> \<not> UseUnicode t
      \<longrightarrow> (\<exists>c. map_of winNamedCases (ToUpper tbl (TrimSpace input)) = Some c
                \<and> t = zeroTask\<lparr>KeyCode := vk c\<rparr>))"
proof (intro conjI allI impI)
  assume "ToUpper tbl (TrimSpace input) \<noteq> [] \<and> length (runes (TrimSpace input)) \<noteq> 1"
  then show "length (ToUpper tbl (TrimSpace input)) \<noteq> 1"
    using letter_digit_guard_false [of "TrimSpace input" tbl] by (simp add: ToUpper_eq_Nil_iff)
next
  fix t ch
  assume "parseMacInput tbl input = Inr t \<and> \<not> UseUnicode t"
  then obtain name mac win where m: "(name, mac, win) \<in> set namedKeyTable"
    and t: "t = zeroTask\<lparr>KeyCode := mac\<rparr>"
    using parse_key_code [of t tbl input vk] by blast
  from t have k: "KeyCode t = mac" by simp
  from namedKeyTable_mac [OF m] k macLetterKeyCode_table [of ch "KeyCode t"]
  show "macLetterKeyCode ch \<noteq> (KeyCode t, True)" by auto
  from namedKeyTable_mac [OF m] k macDigitKeyCode_table [of ch "KeyCode t"]
  show "macDigitKeyCode ch \<noteq> (KeyCode t, True)" by auto
next
  fix t
  assume "parseKeyInput vk tbl input = Inr t \<and> \<not> UseUnicode t"
  then obtain name mac win where m: "(name, mac, win) \<in> set namedKeyTable"
    and n: "ToUpper tbl (TrimSpace input) = name" and t: "t = zeroTask\<lparr>KeyCode := vk win\<rparr>"
    using parse_key_code [of t tbl input vk] by blast
  from namedKeyTable_win [OF m] n t
  show "\<exists>c. map_of winNamedCases (ToUpper tbl (TrimSpace input)) = Some c
          \<and> t = zeroTask\<lparr>KeyCode := vk c\<rparr>" by simp
qed

theorem letter_digit_codes_unreachable_witness:
  "ToUpper (\<lambda>r. r) (TrimSpace ''f5'') \<noteq> []
   \<and> length (runes (TrimSpace ''f5'')) \<noteq> 1
   \<and> length (ToUpper (\<lambda>r. r) (TrimSpace ''f5'')) \<noteq> 1
   \<and> parseMacInput (\<lambda>r. r) ''f5'' = Inr (zeroTask\<lparr>KeyCode := 96\<rparr>)
   \<and> macLetterKeyCode CHR ''F'' \<noteq> (96, True)
   \<and> macDigitKeyCode CHR ''5'' \<noteq> (96, True)
   \<and> parseKeyInput (\<lambda>c. int (length c)) (\<lambda>r. r) ''f5'' = Inr (zeroTask\<lparr>KeyCode := 5\<rparr>)
   \<and> map_of winNamedCases (ToUpper (\<lambda>r. r) (TrimSpace ''f5'')) = Some ''VK_F5''"
proof -
  have a: "ToUpper (\<lambda>r. r) (TrimSpace ''f5'') \<noteq> []" by code_simp
  have b: "length (runes (TrimSpace ''f5'')) \<noteq> 1" by code_simp
  have c: "parseMacInput (\<lambda>r. r) ''f5'' = Inr (zeroTask\<lparr>KeyCode := 96\<rparr>)" by code_simp
  have d: "parseKeyInput (\<lambda>c. int (length c)) (\<lambda>r. r) ''f5'' = Inr (zeroTask\<lparr>KeyCode := 5\<rparr>)"
    by code_simp
  have e: "map_of winNamedCases (ToUpper (\<lambda>r. r) (TrimSpace ''f5'')) = Some ''VK_F5''"
    by code_simp
  have u: "\<not> UseUnicode (zeroTask\<lparr>KeyCode := 96\<rparr>)" by (simp add: zeroTask_def)
  note inst = letter_digit_codes_unreachable [of "\<lambda>r. r" "''f5''" "\<lambda>c. int (length c)"]
  from inst a b have "length (ToUpper (\<lambda>r. r) (TrimSpace ''f5'')) \<noteq> 1" by blast
  moreover from inst c u
  have "macLetterKeyCode CHR ''F'' \<noteq> (KeyCode (zeroTask\<lparr>KeyCode := 96\<rparr>), True)"
    and "macDigitKeyCode CHR ''5'' \<noteq> (KeyCode (zeroTask\<lparr>KeyCode := 96\<rparr>), True)"
    by blast+
  ultimately show ?thesis using a b c d e by simp
qed

section \<open>Properties of the runner\<close>

subsection \<open>The invariant\<close>

lemma inv_initial: "inv initial"
  by (simp add: inv_def initial_def)

lemma foldl_spawn_fields:
  "running (foldl spawn s ts) = running s"
  "stopCh (foldl spawn s ts) = stopCh s"
  "caller (foldl spawn s ts) = caller s"
  "panicked (foldl spawn s ts) = panicked s"
  "injections (foldl spawn s ts) = injections s"
  by (induction ts arbitrary: s; simp add: spawn_def)+

lemma inv_Start_locked: "inv s \<Longrightarrow> caller s = Ready \<Longrightarrow> inv (Start_locked tasks s)"
  by (auto simp: inv_def Start_locked_def)

lemma inv_spawn:
  assumes "inv s" and "running s"
  shows "inv ((spawn s t)\<lparr>caller := InStart ts\<rparr>)"
proof -
  from assms(1) have "\<forall>g \<in> set (goroutines s). gid g \<noteq> spawned s"
    by (auto simp: inv_def)
  with assms show ?thesis
    by (auto simp: inv_def spawn_def less_Suc_eq)
qed

lemma inv_Start_spawn: "inv s \<Longrightarrow> Start_spawn s = Some s' \<Longrightarrow> inv s'"
proof -
  assume i: "inv s" and st: "Start_spawn s = Some s'"
  from st obtain t ts where c: "caller s = InStart (t # ts)"
    and s': "s' = (spawn s t)\<lparr>caller := InStart ts\<rparr>"
    by (auto simp: Start_spawn_def split: caller_pc.splits list.splits)
  from i c have "running s" by (auto simp: inv_def)
  with i s' show ?thesis by (simp add: inv_spawn)
qed

lemma inv_Start_return: "inv s \<Longrightarrow> Start_return s = Some s' \<Longrightarrow> inv s'"
  by (auto simp: inv_def Start_return_def split: caller_pc.splits list.splits)

lemma inv_Stop: "inv s \<Longrightarrow> inv (Stop s)"
  by (auto simp: inv_def Stop_def)

lemma inv_Stop_Wait: "inv s \<Longrightarrow> caller s = InWait \<Longrightarrow> Stop_Wait s = Some s' \<Longrightarrow> inv s'"
  by (auto simp: inv_def Stop_Wait_def split: if_splits)

lemma find_gid_mem: "find (\<lambda>g. gid g = i) gs = Some g \<Longrightarrow> g \<in> set gs \<and> gid g = i"
  by (induction gs) (auto split: if_splits)

lemma length_filter_gid:
  "distinct (map gid gs) \<Longrightarrow> g \<in> set gs \<Longrightarrow>
     Suc (length (filter (\<lambda>h. gid h \<noteq> gid g) gs)) = length gs"
proof (induction gs)
  case Nil
  then show ?case by simp
next
  case (Cons a gs)
  show ?case
  proof (cases "gid a = gid g")
    case True
    with Cons.prems have "\<forall>h \<in> set gs. gid h \<noteq> gid g" by (auto simp: image_iff)
    then have "filter (\<lambda>h. gid h \<noteq> gid g) gs = gs" by (simp add: filter_id_conv)
    with True show ?thesis by simp
  next
    case False
    with Cons show ?thesis by auto
  qed
qed

lemma inv_return_runTask:
  assumes "inv s" and "find (\<lambda>g. gid g = i) (goroutines s) = Some g"
  shows "inv (return_runTask i s) \<and> panicked (return_runTask i s) = panicked s"
proof -
  from find_gid_mem [OF assms(2)] have g: "g \<in> set (goroutines s)" "gid g = i" by simp_all
  from assms(1) have d: "distinct (map gid (goroutines s))" by (simp add: inv_def)
  from length_filter_gid [OF d g(1)] g(2)
  have len: "Suc (length (filter (\<lambda>h. gid h \<noteq> i) (goroutines s))) = length (goroutines s)"
    by simp
  from assms(1) have w: "wg s = int (length (goroutines s))" by (simp add: inv_def)
  with len have pos: "\<not> wg s - 1 < 0" by linarith
  from g(1) assms(1) have run: "caller s = Ready \<longrightarrow> running s" by (auto simp: inv_def)
  have "wg s - 1 = int (length (filter (\<lambda>h. gid h \<noteq> i) (goroutines s)))"
    using w len by linarith
  with assms(1) pos run d show ?thesis
    by (auto simp: inv_def return_runTask_def wgDone_def distinct_map_filter)
qed

lemma inv_panicked: "inv s \<Longrightarrow> inv (s\<lparr>panicked := b\<rparr>)"
  by (auto simp: inv_def)

lemma inv_injections: "inv s \<Longrightarrow> inv (s\<lparr>injections := xs\<rparr>)"
  by (auto simp: inv_def)

lemma map_gid_set_looping:
  "map gid (map (\<lambda>h. if gid h = i then h\<lparr>looping := True\<rparr> else h) gs) = map gid gs"
  by (induction gs) auto

lemma inv_set_looping:
  assumes "inv s"
  shows "inv (s\<lparr>goroutines :=
            map (\<lambda>h. if gid h = i then h\<lparr>looping := True\<rparr> else h) (goroutines s)\<rparr>)"
proof -
  define gs where
    "gs = map (\<lambda>h. if gid h = i then h\<lparr>looping := True\<rparr> else h) (goroutines s)"
  have a: "map gid gs = map gid (goroutines s)"
    unfolding gs_def by (rule map_gid_set_looping)
  have b: "length gs = length (goroutines s)" by (simp add: gs_def)
  have c: "gs = [] \<longleftrightarrow> goroutines s = []" by (simp add: gs_def)
  have d: "gid g < spawned s" if "g \<in> set gs" for g
  proof -
    from that have "gid g \<in> set (map gid gs)" by simp
    then have "gid g \<in> set (map gid (goroutines s))" by (simp only: a)
    then obtain h where "h \<in> set (goroutines s)" "gid h = gid g" by auto
    with assms show ?thesis by (auto simp: inv_def)
  qed
  from assms have "inv (s\<lparr>goroutines := gs\<rparr>)"
    using a b c d by (auto simp: inv_def)
  then show ?thesis by (simp only: gs_def)
qed

lemma step_cases:
  assumes "step p a s = Some s'"
  shows "\<not> panicked s"
    and "a = CallStart tasks \<Longrightarrow> caller s = Ready \<and> s' = Start_locked tasks s"
    and "a = Spawn \<Longrightarrow> Start_spawn s = Some s'"
    and "a = StartReturns \<Longrightarrow> Start_return s = Some s'"
    and "a = CallStop \<Longrightarrow> caller s = Ready \<and> s' = Stop s"
    and "a = WaitReturns \<Longrightarrow> caller s = InWait \<and> Stop_Wait s = Some s'"
    and "a = Begin i bondErr \<Longrightarrow> runTask_begin p bondErr i s = Some s'"
    and "a = Tick i \<Longrightarrow> runTask_tick i s = Some s'"
    and "a = Cancelled i \<Longrightarrow> runTask_stop i s = Some s'"
  using assms by (auto simp: step_def split: if_splits)

lemma inv_step:
  assumes "inv s" and "step p a s = Some s'"
  shows "inv s'"
proof (cases a)
  case (CallStart tasks)
  with step_cases(2) [OF assms(2)] inv_Start_locked [OF assms(1)] show ?thesis by simp
next
  case Spawn
  with step_cases(3) [OF assms(2)] inv_Start_spawn [OF assms(1)] show ?thesis by simp
next
  case StartReturns
  with step_cases(4) [OF assms(2)] inv_Start_return [OF assms(1)] show ?thesis by simp
next
  case CallStop
  with step_cases(5) [OF assms(2)] inv_Stop [OF assms(1)] show ?thesis by simp
next
  case WaitReturns
  with step_cases(6) [OF assms(2)] inv_Stop_Wait [OF assms(1)] show ?thesis by blast
next
  case (Begin i bondErr)
  from step_cases(7) [OF assms(2) Begin] have b: "runTask_begin p bondErr i s = Some s'" .
  then obtain g where g: "find (\<lambda>g. gid g = i) (goroutines s) = Some g"
    by (cases "find (\<lambda>g. gid g = i) (goroutines s)") (simp_all add: runTask_begin_def)
  from b g have "s' = return_runTask i s \<or> s' = s\<lparr>panicked := True\<rparr>
      \<or> s' = s\<lparr>goroutines :=
            map (\<lambda>h. if gid h = i then h\<lparr>looping := True\<rparr> else h) (goroutines s)\<rparr>"
    by (simp add: runTask_begin_def split: if_splits)
  with inv_return_runTask [OF assms(1) g] inv_panicked [OF assms(1)] inv_set_looping [OF assms(1)]
  show ?thesis by auto
next
  case (Tick i)
  from step_cases(8) [OF assms(2) Tick] have "\<exists>xs. s' = s\<lparr>injections := xs\<rparr>"
    by (auto simp: runTask_tick_def split: option.splits if_splits)
  with inv_injections [OF assms(1)] show ?thesis by auto
next
  case (Cancelled i)
  from step_cases(9) [OF assms(2) Cancelled] have b: "runTask_stop i s = Some s'" .
  then obtain g where g: "find (\<lambda>g. gid g = i) (goroutines s) = Some g"
    by (cases "find (\<lambda>g. gid g = i) (goroutines s)") (simp_all add: runTask_stop_def)
  from b g have "s' = return_runTask i s"
    by (simp add: runTask_stop_def split: if_splits)
  with inv_return_runTask [OF assms(1) g] show ?thesis by simp
qed

lemma inv_run: "inv s \<Longrightarrow> run p as s = Some s' \<Longrightarrow> inv s'"
proof (induction as arbitrary: s)
  case Nil
  then show ?case by simp
next
  case (Cons a as)
  from Cons.prems(2) obtain s1 where s1: "step p a s = Some s1" "run p as s1 = Some s'"
    by (cases "step p a s") simp_all
  from inv_step [OF Cons.prems(1) s1(1)] Cons.IH s1(2) show ?case by blast
qed

subsection \<open>Runs without a call of \<open>Stop\<close>, runs after \<open>Stop\<close> has returned\<close>

lemma run_step:
  "run p (a # as) s = Some s' \<Longrightarrow> \<exists>s1. step p a s = Some s1 \<and> run p as s1 = Some s'"
  by (cases "step p a s") simp_all

lemma running_Start [simp]: "running (Start tasks s)"
  by (simp add: Start_def foldl_spawn_fields)

lemma Start_running: "running s \<Longrightarrow> Start tasks s = s"
  by (simp add: Start_def)

lemma running_return_runTask [simp]: "running (return_runTask i s) = running s"
  by (simp add: return_runTask_def wgDone_def)

lemma injections_return_runTask [simp]: "injections (return_runTask i s) = injections s"
  by (simp add: return_runTask_def wgDone_def)

lemma running_step:
  assumes "step p a s = Some s'" and "running s" and "a \<noteq> CallStop"
  shows "running s'"
proof (cases a)
  case (CallStart tasks)
  with step_cases(2) [OF assms(1)] assms(2) show ?thesis by (simp add: Start_locked_def)
next
  case Spawn
  with step_cases(3) [OF assms(1)] assms(2) show ?thesis
    by (auto simp: Start_spawn_def spawn_def split: caller_pc.splits list.splits)
next
  case StartReturns
  with step_cases(4) [OF assms(1)] assms(2) show ?thesis
    by (auto simp: Start_return_def split: caller_pc.splits list.splits)
next
  case CallStop
  with assms(3) show ?thesis by simp
next
  case WaitReturns
  with step_cases(6) [OF assms(1)] assms(2) show ?thesis
    by (auto simp: Stop_Wait_def split: if_splits)
next
  case (Begin i bondErr)
  from step_cases(7) [OF assms(1) Begin] assms(2) show ?thesis
    by (auto simp: runTask_begin_def split: option.splits if_splits)
next
  case (Tick i)
  from step_cases(8) [OF assms(1) Tick] assms(2) show ?thesis
    by (auto simp: runTask_tick_def split: option.splits if_splits)
next
  case (Cancelled i)
  from step_cases(9) [OF assms(1) Cancelled] assms(2) show ?thesis
    by (auto simp: runTask_stop_def split: option.splits if_splits)
qed

lemma running_run:
  "run p as s = Some s' \<Longrightarrow> running s \<Longrightarrow> CallStop \<notin> set as \<Longrightarrow> running s'"
proof (induction as arbitrary: s)
  case Nil
  then show ?case by simp
next
  case (Cons a as)
  from run_step [OF Cons.prems(1)] obtain s1
    where s1: "step p a s = Some s1" "run p as s1 = Some s'" by blast
  from Cons.prems(3) have "a \<noteq> CallStop" "CallStop \<notin> set as" by auto
  with running_step [OF s1(1) Cons.prems(2)] Cons.IH [OF s1(2)] show ?case by blast
qed

lemma quiescent_step:
  assumes "quiescent s" and "step p a s = Some s'" and "\<not> is_CallStart a"
  shows "s' = s"
proof (cases a)
  case (CallStart tasks)
  with assms(3) show ?thesis by simp
next
  case Spawn
  with step_cases(3) [OF assms(2)] assms(1) show ?thesis
    by (simp add: quiescent_def Start_spawn_def)
next
  case StartReturns
  with step_cases(4) [OF assms(2)] assms(1) show ?thesis
    by (simp add: quiescent_def Start_return_def)
next
  case CallStop
  with step_cases(5) [OF assms(2)] assms(1) show ?thesis
    by (simp add: quiescent_def Stop_def)
next
  case WaitReturns
  with step_cases(6) [OF assms(2)] assms(1) show ?thesis
    by (simp add: quiescent_def)
next
  case (Begin i bondErr)
  from step_cases(7) [OF assms(2) Begin] assms(1) show ?thesis
    by (simp add: quiescent_def runTask_begin_def)
next
  case (Tick i)
  from step_cases(8) [OF assms(2) Tick] assms(1) show ?thesis
    by (simp add: quiescent_def runTask_tick_def)
next
  case (Cancelled i)
  from step_cases(9) [OF assms(2) Cancelled] assms(1) show ?thesis
    by (simp add: quiescent_def runTask_stop_def)
qed

lemma quiescent_run:
  "quiescent s \<Longrightarrow> run p as s = Some s' \<Longrightarrow> \<forall>a \<in> set as. \<not> is_CallStart a \<Longrightarrow> s' = s"
proof (induction as arbitrary: s)
  case Nil
  then show ?case by simp
next
  case (Cons a as)
  from run_step [OF Cons.prems(2)] obtain s1
    where s1: "step p a s = Some s1" "run p as s1 = Some s'" by blast
  from Cons.prems(3) have na: "\<not> is_CallStart a" and nas: "\<forall>a \<in> set as. \<not> is_CallStart a"
    by simp_all
  from quiescent_step [OF Cons.prems(1) s1(1) na] have "s1 = s" .
  with Cons.IH [OF Cons.prems(1) _ nas] s1(2) show ?case by simp
qed

lemma stop_returns_quiescent:
  assumes "inv s" and "step p WaitReturns s = Some s'"
  shows "quiescent s'"
proof -
  from step_cases(6) [OF assms(2)] have c: "caller s = InWait" and w: "Stop_Wait s = Some s'"
    by simp_all
  from w have z: "wg s = 0" and s': "s' = s\<lparr>caller := Ready\<rparr>"
    by (simp_all add: Stop_Wait_def split: if_splits)
  from assms(1) z c have "goroutines s = []" "\<not> running s" by (auto simp: inv_def)
  with s' show ?thesis by (simp add: quiescent_def)
qed








lemma Start_locked_running: "running s \<Longrightarrow> Start_locked tasks s = s"
  by (simp add: Start_locked_def)

lemma panicked_spawn [simp]: "panicked (spawn s t) = panicked s"
  by (simp add: spawn_def)

lemma caller_spawn [simp]: "caller (spawn s t) = caller s"
  by (simp add: spawn_def)

lemma run_spawn_loop:
  assumes "\<not> panicked s" and "caller s = InStart ts"
  shows "run p (replicate (length ts) Spawn @ [StartReturns]) s
           = Some ((foldl spawn s ts)\<lparr>caller := Ready\<rparr>)"
  using assms
proof (induction ts arbitrary: s)
  case Nil
  then show ?case by (simp add: step_def Start_return_def)
next
  case (Cons t ts)
  let ?s1 = "(spawn s t)\<lparr>caller := InStart ts\<rparr>"
  from Cons.prems have st: "step p Spawn s = Some ?s1"
    by (simp add: step_def Start_spawn_def)
  from Cons.prems have "\<not> panicked ?s1" "caller ?s1 = InStart ts" by simp_all
  from Cons.IH [OF this]
  have "run p (replicate (length ts) Spawn @ [StartReturns]) ?s1
          = Some ((foldl spawn ?s1 ts)\<lparr>caller := Ready\<rparr>)" .
  moreover have "(foldl spawn ?s1 ts)\<lparr>caller := Ready\<rparr> = (foldl spawn (spawn s t) ts)\<lparr>caller := Ready\<rparr>"
  proof -
    have "(foldl spawn (x\<lparr>caller := c\<rparr>) ts)\<lparr>caller := Ready\<rparr> = (foldl spawn x ts)\<lparr>caller := Ready\<rparr>"
      for x c
    proof (induction ts arbitrary: x)
      case Nil
      then show ?case by simp
    next
      case (Cons u us)
      have "spawn (x\<lparr>caller := c\<rparr>) u = (spawn x u)\<lparr>caller := c\<rparr>" by (simp add: spawn_def)
      with Cons [of "spawn x u"] show ?case by simp
    qed
    then show ?thesis .
  qed
  ultimately show ?case using st by simp
qed

lemma run_startCall:
  assumes "\<not> panicked s" and "caller s = Ready"
  shows "run p (startCall tasks s) s = Some (Start tasks s)"
proof (cases "running s")
  case True
  with assms show ?thesis
    by (simp add: startCall_def step_def Start_locked_def Start_def)
next
  case False
  let ?s0 = "s\<lparr>running := True, stopCh := OpenChan, caller := InStart tasks\<rparr>"
  from assms False have st: "step p (CallStart tasks) s = Some ?s0"
    by (simp add: step_def Start_locked_def)
  from assms have "\<not> panicked ?s0" "caller ?s0 = InStart tasks" by simp_all
  from run_spawn_loop [OF this, of p]
  have "run p (replicate (length tasks) Spawn @ [StartReturns]) ?s0
          = Some ((foldl spawn ?s0 tasks)\<lparr>caller := Ready\<rparr>)" .
  moreover have "(foldl spawn ?s0 tasks)\<lparr>caller := Ready\<rparr>
      = foldl spawn (s\<lparr>running := True, stopCh := OpenChan\<rparr>) tasks"
  proof -
    have a: "caller (foldl spawn x tasks) = caller x" for x
      by (induction tasks arbitrary: x) simp_all
    have b: "(foldl spawn (x\<lparr>caller := c\<rparr>) tasks) = (foldl spawn x tasks)\<lparr>caller := c\<rparr>" for x c
    proof (induction tasks arbitrary: x)
      case Nil
      then show ?case by simp
    next
      case (Cons u us)
      have "spawn (x\<lparr>caller := c\<rparr>) u = (spawn x u)\<lparr>caller := c\<rparr>" by (simp add: spawn_def)
      with Cons [of "spawn x u"] show ?case by simp
    qed
    have "?s0 = (s\<lparr>running := True, stopCh := OpenChan\<rparr>)\<lparr>caller := InStart tasks\<rparr>" by simp
    then have "(foldl spawn ?s0 tasks)\<lparr>caller := Ready\<rparr>
        = (foldl spawn (s\<lparr>running := True, stopCh := OpenChan\<rparr>) tasks)\<lparr>caller := Ready\<rparr>"
      by (simp only: b) simp
    also have "\<dots> = foldl spawn (s\<lparr>running := True, stopCh := OpenChan\<rparr>) tasks"
      using a [of "s\<lparr>running := True, stopCh := OpenChan\<rparr>"] assms(2) by simp
    finally show ?thesis .
  qed
  ultimately show ?thesis using st False by (simp add: startCall_def Start_def)
qed

subsection \<open>The claims about the runner\<close>

text \<open>
  C2, the invariant as stated, fails: a call of \<open>Start\<close> with an empty task list
  on the fresh runner sets \<open>running\<close> and makes the channel, and launches no
  goroutine. After the call \<open>running\<close> holds, the channel is open, and no
  executor is alive.
\<close>

theorem runner_invariant_counterexample:
  "run Darwin [CallStart [], StartReturns] initial = Some (Start [] initial)
   \<and> \<not> (IsRunning (Start [] initial) \<longleftrightarrow>
          goroutines (Start [] initial) \<noteq> [] \<and> stopCh (Start [] initial) = OpenChan)"
  by (simp add: IsRunning_def Start_def initial_def step_def Start_locked_def Start_return_def)

text \<open>
  C2, amended. In every state that a run from the fresh runner reaches, under
  every interleaving: \<open>running\<close> holds exactly when the cancellation channel is
  open; when an executor is alive and the channel is open, \<open>running\<close> holds (the
  converse is what fails); when an executor is alive, the runner is running or
  its caller is still inside \<open>Stop\<close>; the wait group counts the live executors;
  and when \<open>Stop\<close> returns from its wait, which completes the transition to not
  running, no executor is alive.
\<close>

theorem runner_invariant:
  assumes "run p as initial = Some s"
  shows "(IsRunning s \<longleftrightarrow> stopCh s = OpenChan)
       \<and> (goroutines s \<noteq> [] \<and> stopCh s = OpenChan \<longrightarrow> IsRunning s)
       \<and> (goroutines s \<noteq> [] \<longrightarrow> IsRunning s \<or> caller s = InWait)
       \<and> wg s = int (length (goroutines s))
       \<and> (\<forall>s'. step p WaitReturns s = Some s' \<longrightarrow> \<not> IsRunning s' \<and> goroutines s' = [])"
proof -
  from inv_run [OF inv_initial assms] have i: "inv s" .
  have "\<not> IsRunning s' \<and> goroutines s' = []" if "step p WaitReturns s = Some s'" for s'
    using stop_returns_quiescent [OF i that] by (simp add: quiescent_def IsRunning_def)
  moreover from i have "goroutines s \<noteq> [] \<longrightarrow> IsRunning s \<or> caller s = InWait"
    by (cases "caller s") (auto simp: inv_def IsRunning_def)
  ultimately show ?thesis using i by (simp add: inv_def IsRunning_def)
qed

theorem runner_invariant_witness:
  "run Darwin [CallStart [defaultTask], Spawn, StartReturns, Begin 0 False, Tick 0, CallStop,
      Cancelled 0] initial
     = Some \<lparr>running = False, stopCh = ClosedChan, wg = 0, goroutines = [], spawned = 1,
             injections = [(0, KeyTapUnicode 0x41)], caller = InWait, panicked = False\<rparr>
   \<and> step Darwin WaitReturns
        \<lparr>running = False, stopCh = ClosedChan, wg = 0, goroutines = [], spawned = 1,
         injections = [(0, KeyTapUnicode 0x41)], caller = InWait, panicked = False\<rparr>
     = Some \<lparr>running = False, stopCh = ClosedChan, wg = 0, goroutines = [], spawned = 1,
             injections = [(0, KeyTapUnicode 0x41)], caller = Ready, panicked = False\<rparr>
   \<and> \<not> IsRunning \<lparr>running = False, stopCh = ClosedChan, wg = 0, goroutines = [], spawned = 1,
                    injections = [(0, KeyTapUnicode 0x41)], caller = Ready, panicked = False\<rparr>"
proof -
  let ?s = "\<lparr>running = False, stopCh = ClosedChan, wg = 0, goroutines = [], spawned = 1,
             injections = [(0, KeyTapUnicode 0x41)], caller = InWait, panicked = False\<rparr>"
  have r: "run Darwin [CallStart [defaultTask], Spawn, StartReturns, Begin 0 False, Tick 0,
             CallStop, Cancelled 0] initial = Some ?s"
    by code_simp
  have w: "step Darwin WaitReturns ?s = Some (?s\<lparr>caller := Ready\<rparr>)"
    by (simp add: step_def Stop_Wait_def)
  from runner_invariant [OF r] w have "\<not> IsRunning (?s\<lparr>caller := Ready\<rparr>)" by blast
  with r w show ?thesis by simp
qed

text \<open>
  C3. Consider any run from the fresh runner and a state in which the wait of
  \<open>Stop\<close> returns. In the state after the return \<open>IsRunning\<close> is false and no
  executor is alive; and as long as \<open>Start\<close> is not called again, whatever steps
  follow, \<open>IsRunning\<close> stays false and the sequence of injections stays as it was
  at the return.
\<close>

theorem stop_returns_no_more_injections:
  assumes "run p as initial = Some s"
      and "step p WaitReturns s = Some s'"
      and "run p bs s' = Some s''"
      and "\<forall>a \<in> set bs. \<not> is_CallStart a"
  shows "\<not> IsRunning s' \<and> goroutines s' = []
       \<and> \<not> IsRunning s'' \<and> injections s'' = injections s'"
proof -
  from inv_run [OF inv_initial assms(1)] have "inv s" .
  from stop_returns_quiescent [OF this assms(2)] have q: "quiescent s'" .
  from quiescent_run [OF q assms(3,4)] have "s'' = s'" .
  with q show ?thesis by (simp add: quiescent_def IsRunning_def)
qed

theorem stop_returns_no_more_injections_witness:
  "run Darwin [CallStart [defaultTask], Spawn, StartReturns, Begin 0 False, Tick 0, CallStop,
      Tick 0, Cancelled 0] initial
     = Some \<lparr>running = False, stopCh = ClosedChan, wg = 0, goroutines = [], spawned = 1,
             injections = [(0, KeyTapUnicode 0x41), (0, KeyTapUnicode 0x41)],
             caller = InWait, panicked = False\<rparr>
   \<and> step Darwin WaitReturns
        \<lparr>running = False, stopCh = ClosedChan, wg = 0, goroutines = [], spawned = 1,
         injections = [(0, KeyTapUnicode 0x41), (0, KeyTapUnicode 0x41)],
         caller = InWait, panicked = False\<rparr>
     = Some \<lparr>running = False, stopCh = ClosedChan, wg = 0, goroutines = [], spawned = 1,
             injections = [(0, KeyTapUnicode 0x41), (0, KeyTapUnicode 0x41)],
             caller = Ready, panicked = False\<rparr>
   \<and> run Darwin [CallStop, CallStop]
        \<lparr>running = False, stopCh = ClosedChan, wg = 0, goroutines = [], spawned = 1,
         injections = [(0, KeyTapUnicode 0x41), (0, KeyTapUnicode 0x41)],
         caller = Ready, panicked = False\<rparr>
     = Some \<lparr>running = False, stopCh = ClosedChan, wg = 0, goroutines = [], spawned = 1,
             injections = [(0, KeyTapUnicode 0x41), (0, KeyTapUnicode 0x41)],
             caller = Ready, panicked = False\<rparr>
   \<and> \<not> is_CallStart CallStop
   \<and> \<not> IsRunning
        \<lparr>running = False, stopCh = ClosedChan, wg = 0, goroutines = [], spawned = 1,
         injections = [(0, KeyTapUnicode 0x41), (0, KeyTapUnicode 0x41)],
         caller = Ready, panicked = False\<rparr>"
proof -
  let ?s = "\<lparr>running = False, stopCh = ClosedChan, wg = 0, goroutines = [], spawned = 1,
             injections = [(0, KeyTapUnicode 0x41), (0, KeyTapUnicode 0x41)],
             caller = InWait, panicked = False\<rparr>"
  let ?s' = "?s\<lparr>caller := Ready\<rparr>"
  have r: "run Darwin [CallStart [defaultTask], Spawn, StartReturns, Begin 0 False, Tick 0,
             CallStop, Tick 0, Cancelled 0] initial = Some ?s"
    by code_simp
  have w: "step Darwin WaitReturns ?s = Some ?s'"
    by (simp add: step_def Stop_Wait_def)
  have b: "run Darwin [CallStop, CallStop] ?s' = Some ?s'"
    by (simp add: step_def Stop_def)
  have n: "\<forall>a \<in> set [CallStop, CallStop]. \<not> is_CallStart a" by simp
  from stop_returns_no_more_injections [OF r w b n] have "\<not> IsRunning ?s'" by blast
  with r w b show ?thesis by simp
qed



text \<open>
  C5. Take a runner that is running, and any further steps other than a call of
  \<open>Stop\<close>. The runner is then still running, and a call of \<open>Start\<close> with any task
  list returns in its guarded part and leaves the whole state as it is:
  \<open>IsRunning\<close> stays true, no goroutine is launched, and the live goroutines and
  their tasks are unchanged.
\<close>

theorem start_again_is_noop:
  assumes "IsRunning s" and "run p as s = Some s'" and "CallStop \<notin> set as"
  shows "IsRunning s' \<and> Start_locked tasks s' = s' \<and> Start tasks s' = s'"
proof -
  from assms(1) have "running s" by (simp add: IsRunning_def)
  from running_run [OF assms(2) this assms(3)] have "running s'" .
  then show ?thesis by (simp add: IsRunning_def Start_running Start_locked_running)
qed

theorem start_again_is_noop_witness:
  "IsRunning (Start [defaultTask] initial)
   \<and> run Darwin [Begin 0 False, Tick 0] (Start [defaultTask] initial)
     = Some \<lparr>running = True, stopCh = OpenChan, wg = 1,
             goroutines = [\<lparr>gid = 0, gtask = defaultTask, looping = True\<rparr>],
             spawned = 1, injections = [(0, KeyTapUnicode 0x41)],
             caller = Ready, panicked = False\<rparr>
   \<and> CallStop \<notin> set [Begin 0 False, Tick 0]
   \<and> Start [zeroTask, zeroTask]
        \<lparr>running = True, stopCh = OpenChan, wg = 1,
         goroutines = [\<lparr>gid = 0, gtask = defaultTask, looping = True\<rparr>],
         spawned = 1, injections = [(0, KeyTapUnicode 0x41)],
         caller = Ready, panicked = False\<rparr>
     = \<lparr>running = True, stopCh = OpenChan, wg = 1,
        goroutines = [\<lparr>gid = 0, gtask = defaultTask, looping = True\<rparr>],
        spawned = 1, injections = [(0, KeyTapUnicode 0x41)],
        caller = Ready, panicked = False\<rparr>"
proof -
  let ?s' = "\<lparr>running = True, stopCh = OpenChan, wg = 1,
             goroutines = [\<lparr>gid = 0, gtask = defaultTask, looping = True\<rparr>],
             spawned = 1, injections = [(0, KeyTapUnicode 0x41)],
             caller = Ready, panicked = False\<rparr>"
  have i: "IsRunning (Start [defaultTask] initial)" by code_simp
  have r: "run Darwin [Begin 0 False, Tick 0] (Start [defaultTask] initial) = Some ?s'"
    by code_simp
  have n: "CallStop \<notin> set [Begin 0 False, Tick 0]" by simp
  from start_again_is_noop [OF i r n, of "[zeroTask, zeroTask]"]
  have "Start [zeroTask, zeroTask] ?s' = ?s'" by blast
  with i r n show ?thesis by simp
qed

text \<open>
  C6. \<open>Stop\<close> on a runner that is not running changes nothing, neither the
  running flag nor the channel nor any other part of the state, and the call
  returns without reaching the wait: the step leaves the caller \<open>Ready\<close>.
\<close>

theorem stop_when_idle_is_noop:
  assumes "\<not> IsRunning s" and "caller s = Ready" and "\<not> panicked s"
  shows "Stop s = s \<and> step p CallStop s = Some s"
  using assms by (simp add: IsRunning_def Stop_def step_def)

theorem stop_when_idle_is_noop_witness:
  "\<not> IsRunning initial \<and> caller initial = Ready \<and> \<not> panicked initial
   \<and> Stop initial = initial \<and> step Darwin CallStop initial = Some initial"
proof -
  have a: "\<not> IsRunning initial" "caller initial = Ready" "\<not> panicked initial"
    by (simp_all add: IsRunning_def initial_def)
  from stop_when_idle_is_noop [OF a, of Darwin] a show ?thesis by simp
qed

section \<open>Properties of the Start button\<close>










end
